theory Spec2Isabelle
  imports Complex_Main "HOL-Library.Word" "HOL-Library.Signed_Division"
begin

section \<open>The canonical observation encoder of the Hanabi learning environment\<close>

text \<open>
  A shallow embedding of \<^verbatim>\<open>hanabi_lib/canonical_encoders.cc\<close>. The encoding buffer
  \<^verbatim>\<open>std::vector<float>\<close> is a list of rationals: the entries the encoders write are
  0, 1, small integers and quotients of such, and the arithmetic on them is taken exact
  (rounding of the final float division is not modelled). C++ \<^verbatim>\<open>int\<close> is \<^typ>\<open>int\<close>;
  the sizes of a game are far below the range of a machine integer.

  A failed \<^verbatim>\<open>assert\<close>, a call of \<^verbatim>\<open>std::abort\<close> and an access outside a vector
  are results of their own, so every function below is total and returns \<open>Inl\<close> of the
  error or \<open>Inr\<close> of its value.
\<close>

subsection \<open>Errors and vectors\<close>

datatype error =
    AssertFailed          \<comment> \<open>an \<^verbatim>\<open>assert\<close> on the observation or on a belief total\<close>
  | SectionLengthAssert   \<comment> \<open>the \<^verbatim>\<open>assert\<close> comparing a cursor with a section length\<close>
  | StdAbort              \<comment> \<open>\<^verbatim>\<open>std::abort()\<close>\<close>
  | OutOfRange            \<comment> \<open>a vector indexed outside its bounds\<close>
  | DivideByZero          \<comment> \<open>an integer division or remainder by zero\<close>

definition ebind :: "error + 'a \<Rightarrow> ('a \<Rightarrow> error + 'b) \<Rightarrow> error + 'b" where
  "ebind m f = (case m of Inl e \<Rightarrow> Inl e | Inr x \<Rightarrow> f x)"

definition check :: "bool \<Rightarrow> error \<Rightarrow> error + unit" where
  "check b e = (if b then Inr () else Inl e)"

text \<open>\<^verbatim>\<open>for (x : xs) body\<close>, stopping at the first error.\<close>

fun forM :: "'a list \<Rightarrow> ('a \<Rightarrow> 's \<Rightarrow> error + 's) \<Rightarrow> 's \<Rightarrow> error + 's" where
  "forM [] f s = Inr s"
| "forM (x # xs) f s = ebind (f x s) (forM xs f)"

text \<open>The values of \<^verbatim>\<open>i\<close> in \<^verbatim>\<open>for (int i = 0; i < n; ++i)\<close>.\<close>

definition ints_below :: "int \<Rightarrow> int list" where
  "ints_below n = map int [0..<nat n]"

definition in_bounds :: "'a list \<Rightarrow> int \<Rightarrow> bool" where
  "in_bounds xs k = (0 \<le> k \<and> k < int (length xs))"

text \<open>\<^verbatim>\<open>xs[k]\<close> read and \<^verbatim>\<open>xs[k] = v\<close>.\<close>

definition vget :: "'a list \<Rightarrow> int \<Rightarrow> error + 'a" where
  "vget xs k = (if in_bounds xs k then Inr (xs ! nat k) else Inl OutOfRange)"

definition vset :: "'a list \<Rightarrow> int \<Rightarrow> 'a \<Rightarrow> error + 'a list" where
  "vset xs k v = (if in_bounds xs k then Inr (xs[nat k := v]) else Inl OutOfRange)"

text \<open>\<^verbatim>\<open>a / b\<close> and \<^verbatim>\<open>a % b\<close> on \<^verbatim>\<open>int\<close>: both truncate towards zero.\<close>

definition idiv :: "int \<Rightarrow> int \<Rightarrow> error + int" where
  "idiv a b = (if b = 0 then Inl DivideByZero else Inr (a sdiv b))"

definition imod :: "int \<Rightarrow> int \<Rightarrow> error + int" where
  "imod a b = (if b = 0 then Inl DivideByZero else Inr (a smod b))"

text \<open>\<^verbatim>\<open>std::vector<float> encoding(n, 0)\<close>.\<close>

definition zeros :: "int \<Rightarrow> rat list" where
  "zeros n = replicate (nat n) 0"

subsection \<open>Game, cards, hands, moves, observations\<close>

text \<open>
  The classes \<^verbatim>\<open>HanabiGame\<close>, \<^verbatim>\<open>HanabiCard\<close>, \<^verbatim>\<open>HanabiHand\<close>, \<^verbatim>\<open>HanabiMove\<close>,
  \<^verbatim>\<open>HanabiHistoryItem\<close> and \<^verbatim>\<open>HanabiObservation\<close> are used by the encoder through
  their getters only; each is a record of what the getters return.
\<close>

datatype AgentObservationType = kMinimal | kCardKnowledge | kSeer

record HanabiGame =
  NumColors :: int
  NumRanks :: int
  NumPlayers :: int
  HandSize :: int
  MaxDeckSize :: int
  MaxInformationTokens :: int
  MaxLifeTokens :: int
  NumberCardInstances :: "int \<Rightarrow> int \<Rightarrow> int"
  ObservationType :: AgentObservationType

record HanabiCard =
  card_Color :: int
  card_Rank :: int
  card_IsValid :: bool

record CardKnowledge =
  ColorPlausible :: "int \<Rightarrow> bool"
  RankPlausible :: "int \<Rightarrow> bool"
  ColorHinted :: bool
  ck_Color :: int
  RankHinted :: bool
  ck_Rank :: int

record HanabiHand =
  Cards :: "HanabiCard list"
  Knowledge :: "CardKnowledge list"

datatype MoveType = kInvalid | kPlay | kDiscard | kRevealColor | kRevealRank | kDeal

record HanabiMove =
  move_Type :: MoveType
  move_CardIndex :: int
  move_TargetOffset :: int
  move_Color :: int
  move_Rank :: int

record HanabiHistoryItem =
  item_move :: HanabiMove
  item_player :: int
  item_scored :: bool
  item_information_token :: bool
  item_color :: int
  item_rank :: int
  item_reveal_bitmask :: "8 word"

record HanabiObservation =
  Hands :: "HanabiHand list"
  DiscardPile :: "HanabiCard list"
  Fireworks :: "int list"
  DeckSize :: int
  InformationTokens :: int
  LifeTokens :: int
  LastMoves :: "HanabiHistoryItem list"

subsection \<open>Layout\<close>

definition FlatLength :: "int list \<Rightarrow> int" where
  "FlatLength shape = foldl (*) 1 shape"

definition BitsPerCard :: "HanabiGame \<Rightarrow> int" where
  "BitsPerCard game = NumColors game * NumRanks game"

definition CardIndex :: "int \<Rightarrow> int \<Rightarrow> int \<Rightarrow> int" where
  "CardIndex color rank num_ranks = color * num_ranks + rank"

definition HandsSectionLength :: "HanabiGame \<Rightarrow> int" where
  "HandsSectionLength game =
     NumPlayers game * HandSize game * BitsPerCard game + NumPlayers game"

definition BoardSectionLength :: "HanabiGame \<Rightarrow> int" where
  "BoardSectionLength game =
     MaxDeckSize game - NumPlayers game * HandSize game +
     NumColors game * NumRanks game +
     MaxInformationTokens game +
     MaxLifeTokens game"

definition DiscardSectionLength :: "HanabiGame \<Rightarrow> int" where
  "DiscardSectionLength game = MaxDeckSize game"

definition LastActionSectionLength :: "HanabiGame \<Rightarrow> int" where
  "LastActionSectionLength game =
     NumPlayers game + 4 + NumPlayers game + NumColors game + NumRanks game +
     HandSize game + HandSize game + BitsPerCard game + 2"

definition CardKnowledgeSectionLength :: "HanabiGame \<Rightarrow> int" where
  "CardKnowledgeSectionLength game =
     NumPlayers game * HandSize game *
     (BitsPerCard game + NumColors game + NumRanks game)"

definition Shape :: "HanabiGame \<Rightarrow> int list" where
  "Shape game =
     [HandsSectionLength game + BoardSectionLength game + DiscardSectionLength game +
      LastActionSectionLength game +
      (if ObservationType game = kMinimal then 0 else CardKnowledgeSectionLength game)]"

text \<open>
  The section lengths as the specification words them (section 4.1), and their total.
\<close>

definition spec_hands_length :: "HanabiGame \<Rightarrow> int" where
  "spec_hands_length g =
     NumPlayers g * HandSize g * (NumColors g * NumRanks g) + NumPlayers g"

definition spec_board_length :: "HanabiGame \<Rightarrow> int" where
  "spec_board_length g =
     (MaxDeckSize g - NumPlayers g * HandSize g) + NumColors g * NumRanks g +
     MaxInformationTokens g + MaxLifeTokens g"

definition spec_discards_length :: "HanabiGame \<Rightarrow> int" where
  "spec_discards_length g = MaxDeckSize g"

definition spec_last_action_length :: "HanabiGame \<Rightarrow> int" where
  "spec_last_action_length g =
     NumPlayers g + 4 + NumPlayers g + NumColors g + NumRanks g + HandSize g + HandSize g +
     (NumColors g * NumRanks g) + 2"

definition spec_card_knowledge_length :: "HanabiGame \<Rightarrow> int" where
  "spec_card_knowledge_length g =
     NumPlayers g * HandSize g * (NumColors g * NumRanks g + NumColors g + NumRanks g)"

definition spec_total_length :: "AgentObservationType \<Rightarrow> HanabiGame \<Rightarrow> int" where
  "spec_total_length mode g =
     (case mode of
        kMinimal \<Rightarrow>
          spec_hands_length g + spec_board_length g + spec_discards_length g +
          spec_last_action_length g
      | _ \<Rightarrow>
          spec_hands_length g + spec_board_length g + spec_discards_length g +
          spec_last_action_length g + spec_card_knowledge_length g)"

subsection \<open>The last action\<close>

text \<open>
  A source function whose name ends with an underscore is named with the suffix
  \<open>_impl\<close> here: \<^verbatim>\<open>EncodeLastAction_\<close> is \<open>EncodeLastAction_impl\<close>.
\<close>

definition GetLastNonDealMove :: "HanabiHistoryItem list \<Rightarrow> HanabiHistoryItem option" where
  "GetLastNonDealMove past_moves =
     List.find (\<lambda>item. move_Type (item_move item) \<noteq> kDeal) past_moves"

text \<open>
  The fields of \<^verbatim>\<open>EncodeLastAction_\<close> for a move that exists, each taking the buffer
  and the cursor and returning both. In the outcome loop \<^verbatim>\<open>mask\<close> is \<open>2 ^ i\<close>, so
  \<^verbatim>\<open>(reveal_bitmask & mask) > 0\<close> reads bit \<open>i\<close> of the 8-bit mask. The target is
  stored in an \<^verbatim>\<open>int8_t\<close>; \<^verbatim>\<open>%\<close> truncates towards zero.
\<close>

definition is_reveal :: "MoveType \<Rightarrow> bool" where
  "is_reveal t = (t = kRevealColor \<or> t = kRevealRank)"

definition is_play_or_discard :: "MoveType \<Rightarrow> bool" where
  "is_play_or_discard t = (t = kPlay \<or> t = kDiscard)"

definition encode_move_type :: "MoveType \<Rightarrow> int \<Rightarrow> rat list \<Rightarrow> error + rat list" where
  "encode_move_type t offset encoding =
     (case t of
        kPlay \<Rightarrow> vset encoding offset 1
      | kDiscard \<Rightarrow> vset encoding (offset + 1) 1
      | kRevealColor \<Rightarrow> vset encoding (offset + 2) 1
      | kRevealRank \<Rightarrow> vset encoding (offset + 3) 1
      | _ \<Rightarrow> Inl StdAbort)"

definition encode_last_move ::
  "HanabiGame \<Rightarrow> HanabiHistoryItem \<Rightarrow> int \<Rightarrow> rat list \<Rightarrow> error + (rat list \<times> int)" where
  "encode_last_move game last_move offset0 encoding0 =
     (let num_colors = NumColors game;
          num_ranks = NumRanks game;
          num_players = NumPlayers game;
          hand_size = HandSize game;
          last_move_type = move_Type (item_move last_move)
      in
      ebind (vset encoding0 (offset0 + item_player last_move) 1) (\<lambda>enc1.
      let offset1 = offset0 + num_players in
      ebind (encode_move_type last_move_type offset1 enc1) (\<lambda>enc2.
      let offset2 = offset1 + 4 in
      ebind (if is_reveal last_move_type
             then ebind (imod (item_player last_move + move_TargetOffset (item_move last_move))
                           num_players) (\<lambda>m.
                  let observer_relative_target = sint (word_of_int m :: 8 word)
                  in vset enc2 (offset2 + observer_relative_target) 1)
             else Inr enc2) (\<lambda>enc3.
      let offset3 = offset2 + num_players in
      ebind (if last_move_type = kRevealColor
             then vset enc3 (offset3 + move_Color (item_move last_move)) 1
             else Inr enc3) (\<lambda>enc4.
      let offset4 = offset3 + num_colors in
      ebind (if last_move_type = kRevealRank
             then vset enc4 (offset4 + move_Rank (item_move last_move)) 1
             else Inr enc4) (\<lambda>enc5.
      let offset5 = offset4 + num_ranks in
      ebind (if is_reveal last_move_type
             then forM (ints_below hand_size)
                    (\<lambda>i enc. if bit (item_reveal_bitmask last_move) (nat i)
                             then vset enc (offset5 + i) 1 else Inr enc) enc5
             else Inr enc5) (\<lambda>enc6.
      let offset6 = offset5 + hand_size in
      ebind (if is_play_or_discard last_move_type
             then vset enc6 (offset6 + move_CardIndex (item_move last_move)) 1
             else Inr enc6) (\<lambda>enc7.
      let offset7 = offset6 + hand_size in
      ebind (if is_play_or_discard last_move_type
             then ebind (check (item_color last_move \<ge> 0) AssertFailed) (\<lambda>_.
                  ebind (check (item_rank last_move \<ge> 0) AssertFailed) (\<lambda>_.
                  vset enc7
                    (offset7 + CardIndex (item_color last_move) (item_rank last_move) num_ranks)
                    1))
             else Inr enc7) (\<lambda>enc8.
      let offset8 = offset7 + BitsPerCard game in
      ebind (if last_move_type = kPlay
             then ebind (if item_scored last_move then vset enc8 offset8 1 else Inr enc8)
                    (\<lambda>enc. if item_information_token last_move
                            then vset enc (offset8 + 1) 1 else Inr enc)
             else Inr enc8) (\<lambda>enc9.
      Inr (enc9, offset8 + 2)))))))))))"

definition EncodeLastAction_impl ::
  "HanabiGame \<Rightarrow> HanabiObservation \<Rightarrow> int \<Rightarrow> rat list \<Rightarrow> error + (rat list \<times> int)" where
  "EncodeLastAction_impl game obs start_offset encoding =
     ebind (case GetLastNonDealMove (LastMoves obs) of
              None \<Rightarrow> Inr (encoding, start_offset + LastActionSectionLength game)
            | Some last_move \<Rightarrow> encode_last_move game last_move start_offset encoding)
       (\<lambda>(enc, offset).
          ebind (check (offset - start_offset = LastActionSectionLength game)
                   SectionLengthAssert) (\<lambda>_.
          Inr (enc, offset - start_offset)))"

definition EncodeLastAction :: "HanabiGame \<Rightarrow> HanabiObservation \<Rightarrow> error + rat list" where
  "EncodeLastAction game obs =
     (let encoding = zeros (LastActionSectionLength game) in
      ebind (EncodeLastAction_impl game obs 0 encoding) (\<lambda>(enc, len).
      ebind (check (0 + len = int (length enc)) SectionLengthAssert) (\<lambda>_.
      Inr enc)))"

subsection \<open>The own-hand summary\<close>

definition own_hand_card ::
  "HanabiGame \<Rightarrow> int list \<Rightarrow> HanabiCard \<Rightarrow> rat list \<times> int \<Rightarrow> error + (rat list \<times> int)" where
  "own_hand_card game fireworks crd = (\<lambda>(encoding, offset).
     ebind (check (card_Color crd < NumColors game) AssertFailed) (\<lambda>_.
     ebind (check (card_Rank crd < NumRanks game) AssertFailed) (\<lambda>_.
     ebind (check (card_IsValid crd) AssertFailed) (\<lambda>_.
     ebind (vget fireworks (card_Color crd)) (\<lambda>firework.
     ebind (if card_Rank crd = firework then vset encoding offset 1
            else if card_Rank crd < firework then vset encoding (offset + 1) 1
            else vset encoding (offset + 2) 1) (\<lambda>enc.
     Inr (enc, offset + 3)))))))"

definition EncodeOwnHand_impl ::
  "HanabiGame \<Rightarrow> HanabiObservation \<Rightarrow> int \<Rightarrow> rat list \<Rightarrow> error + (rat list \<times> int)" where
  "EncodeOwnHand_impl game obs start_offset encoding =
     ebind (vget (Hands obs) 0) (\<lambda>hand.
     forM (Cards hand) (own_hand_card game (Fireworks obs)) (encoding, start_offset))"

definition EncodeOwnHand :: "HanabiGame \<Rightarrow> HanabiObservation \<Rightarrow> error + rat list" where
  "EncodeOwnHand game obs =
     (let len = 5 * 3; encoding = zeros len in
      ebind (EncodeOwnHand_impl game obs 0 encoding) (\<lambda>(enc, offset).
      ebind (check (offset \<le> len) AssertFailed) (\<lambda>_.
      Inr enc)))"

subsection \<open>Hands\<close>

text \<open>
  The body of the loop over the cards of one hand in \<^verbatim>\<open>EncodeHands\<close>; the state is
  the buffer, the cursor and \<^verbatim>\<open>num_cards\<close>.
\<close>

definition encode_hand_card ::
  "HanabiGame \<Rightarrow> bool \<Rightarrow> int \<Rightarrow> HanabiCard \<Rightarrow> rat list \<times> int \<times> int \<Rightarrow>
     error + (rat list \<times> int \<times> int)" where
  "encode_hand_card game show_own_cards player crd = (\<lambda>(encoding, offset, num_cards).
     ebind (check (card_Color crd < NumColors game) AssertFailed) (\<lambda>_.
     ebind (check (card_Rank crd < NumRanks game) AssertFailed) (\<lambda>_.
     ebind (if player = 0 then
              (if show_own_cards then
                 ebind (check (card_IsValid crd) AssertFailed) (\<lambda>_.
                 vset encoding
                   (offset + CardIndex (card_Color crd) (card_Rank crd) (NumRanks game)) 1)
               else
                 ebind (check (\<not> card_IsValid crd) AssertFailed) (\<lambda>_. Inr encoding))
            else
              ebind (check (card_IsValid crd) AssertFailed) (\<lambda>_.
              vset encoding
                (offset + CardIndex (card_Color crd) (card_Rank crd) (NumRanks game)) 1))
       (\<lambda>enc.
     Inr (enc, offset + BitsPerCard game, num_cards + 1)))))"

definition encode_hand ::
  "HanabiGame \<Rightarrow> HanabiObservation \<Rightarrow> bool \<Rightarrow> int \<Rightarrow> rat list \<times> int \<Rightarrow>
     error + (rat list \<times> int)" where
  "encode_hand game obs show_own_cards player = (\<lambda>(encoding, offset).
     ebind (vget (Hands obs) player) (\<lambda>hand.
     ebind (forM (Cards hand) (encode_hand_card game show_own_cards player)
              (encoding, offset, 0)) (\<lambda>(enc, offset1, num_cards).
     Inr (enc,
          if num_cards < HandSize game
          then offset1 + (HandSize game - num_cards) * BitsPerCard game
          else offset1))))"

definition encode_hand_missing ::
  "HanabiGame \<Rightarrow> HanabiObservation \<Rightarrow> int \<Rightarrow> int \<Rightarrow> rat list \<Rightarrow> error + rat list" where
  "encode_hand_missing game obs offset player encoding =
     ebind (vget (Hands obs) player) (\<lambda>hand.
     if int (length (Cards hand)) < HandSize game
     then vset encoding (offset + player) 1
     else Inr encoding)"

definition EncodeHands ::
  "HanabiGame \<Rightarrow> HanabiObservation \<Rightarrow> int \<Rightarrow> rat list \<Rightarrow> bool \<Rightarrow>
     error + (rat list \<times> int)" where
  "EncodeHands game obs start_offset encoding show_own_cards =
     (let num_players = NumPlayers game in
      ebind (check (int (length (Hands obs)) = num_players) AssertFailed) (\<lambda>_.
      ebind (forM (ints_below num_players) (encode_hand game obs show_own_cards)
               (encoding, start_offset)) (\<lambda>(enc1, offset1).
      ebind (forM (ints_below num_players) (encode_hand_missing game obs offset1) enc1)
        (\<lambda>enc2.
      let offset2 = offset1 + num_players in
      ebind (check (offset2 - start_offset = HandsSectionLength game) SectionLengthAssert)
        (\<lambda>_.
      Inr (enc2, offset2 - start_offset))))))"

subsection \<open>Board\<close>

text \<open>A thermometer: \<^verbatim>\<open>for (int i = 0; i < n; ++i) (*encoding)[offset + i] = 1;\<close>\<close>

definition thermometer :: "int \<Rightarrow> int \<Rightarrow> rat list \<Rightarrow> error + rat list" where
  "thermometer n offset encoding =
     forM (ints_below n) (\<lambda>i enc. vset enc (offset + i) 1) encoding"

definition encode_firework ::
  "HanabiGame \<Rightarrow> int list \<Rightarrow> int \<Rightarrow> rat list \<times> int \<Rightarrow> error + (rat list \<times> int)" where
  "encode_firework game fireworks c = (\<lambda>(encoding, offset).
     ebind (vget fireworks c) (\<lambda>fw.
     ebind (if fw > 0 then vset encoding (offset + fw - 1) 1 else Inr encoding) (\<lambda>enc.
     Inr (enc, offset + NumRanks game))))"

definition EncodeBoard ::
  "HanabiGame \<Rightarrow> HanabiObservation \<Rightarrow> int \<Rightarrow> rat list \<Rightarrow> error + (rat list \<times> int)" where
  "EncodeBoard game obs start_offset encoding =
     (let num_colors = NumColors game;
          num_players = NumPlayers game;
          hand_size = HandSize game;
          max_deck_size = MaxDeckSize game
      in
      ebind (thermometer (DeckSize obs) start_offset encoding) (\<lambda>enc1.
      let offset1 = start_offset + (max_deck_size - hand_size * num_players) in
      ebind (forM (ints_below num_colors) (encode_firework game (Fireworks obs))
               (enc1, offset1)) (\<lambda>(enc2, offset2).
      ebind (check (InformationTokens obs \<ge> 0) AssertFailed) (\<lambda>_.
      ebind (check (InformationTokens obs \<le> MaxInformationTokens game) AssertFailed) (\<lambda>_.
      ebind (thermometer (InformationTokens obs) offset2 enc2) (\<lambda>enc3.
      let offset3 = offset2 + MaxInformationTokens game in
      ebind (check (LifeTokens obs \<ge> 0) AssertFailed) (\<lambda>_.
      ebind (check (LifeTokens obs \<le> MaxLifeTokens game) AssertFailed) (\<lambda>_.
      ebind (thermometer (LifeTokens obs) offset3 enc3) (\<lambda>enc4.
      let offset4 = offset3 + MaxLifeTokens game in
      ebind (check (offset4 - start_offset = BoardSectionLength game) SectionLengthAssert)
        (\<lambda>_.
      Inr (enc4, offset4 - start_offset)))))))))))"

subsection \<open>Discards\<close>

definition count_discard :: "int \<Rightarrow> HanabiCard \<Rightarrow> int list \<Rightarrow> error + int list" where
  "count_discard num_ranks crd discard_counts =
     (let k = card_Color crd * num_ranks + card_Rank crd in
      ebind (vget discard_counts k) (\<lambda>v. vset discard_counts k (v + 1)))"

definition encode_discard_field ::
  "HanabiGame \<Rightarrow> int list \<Rightarrow> int \<Rightarrow> int \<Rightarrow> rat list \<times> int \<Rightarrow> error + (rat list \<times> int)"
  where
  "encode_discard_field game discard_counts c r = (\<lambda>(encoding, offset).
     ebind (vget discard_counts (c * NumRanks game + r)) (\<lambda>num_discarded.
     ebind (thermometer num_discarded offset encoding) (\<lambda>enc.
     Inr (enc, offset + NumberCardInstances game c r))))"

definition EncodeDiscards ::
  "HanabiGame \<Rightarrow> HanabiObservation \<Rightarrow> int \<Rightarrow> rat list \<Rightarrow> error + (rat list \<times> int)" where
  "EncodeDiscards game obs start_offset encoding =
     (let num_colors = NumColors game;
          num_ranks = NumRanks game
      in
      ebind (forM (DiscardPile obs) (count_discard num_ranks)
               (replicate (nat (num_colors * num_ranks)) 0)) (\<lambda>discard_counts.
      ebind (forM (ints_below num_colors)
               (\<lambda>c. forM (ints_below num_ranks) (encode_discard_field game discard_counts c))
               (encoding, start_offset)) (\<lambda>(enc, offset).
      ebind (check (offset - start_offset = DiscardSectionLength game) SectionLengthAssert)
        (\<lambda>_.
      Inr (enc, offset - start_offset)))))"

subsection \<open>Card knowledge\<close>

definition encode_plausible ::
  "HanabiGame \<Rightarrow> CardKnowledge \<Rightarrow> int \<Rightarrow> rat list \<Rightarrow> error + rat list" where
  "encode_plausible game card_knowledge offset encoding =
     forM (ints_below (NumColors game))
       (\<lambda>color enc.
          if ColorPlausible card_knowledge color
          then forM (ints_below (NumRanks game))
                 (\<lambda>rank enc'.
                    if RankPlausible card_knowledge rank
                    then vset enc' (offset + CardIndex color rank (NumRanks game)) 1
                    else Inr enc') enc
          else Inr enc)
       encoding"

definition encode_knowledge ::
  "HanabiGame \<Rightarrow> CardKnowledge \<Rightarrow> rat list \<times> int \<times> int \<Rightarrow>
     error + (rat list \<times> int \<times> int)" where
  "encode_knowledge game card_knowledge = (\<lambda>(encoding, offset, num_cards).
     ebind (encode_plausible game card_knowledge offset encoding) (\<lambda>enc1.
     let offset1 = offset + BitsPerCard game in
     ebind (if ColorHinted card_knowledge
            then vset enc1 (offset1 + ck_Color card_knowledge) 1 else Inr enc1) (\<lambda>enc2.
     let offset2 = offset1 + NumColors game in
     ebind (if RankHinted card_knowledge
            then vset enc2 (offset2 + ck_Rank card_knowledge) 1 else Inr enc2) (\<lambda>enc3.
     let offset3 = offset2 + NumRanks game in
     Inr (enc3, offset3, num_cards + 1)))))"

definition encode_hand_knowledge ::
  "HanabiGame \<Rightarrow> HanabiObservation \<Rightarrow> int \<Rightarrow> rat list \<times> int \<Rightarrow>
     error + (rat list \<times> int)" where
  "encode_hand_knowledge game obs player = (\<lambda>(encoding, offset).
     ebind (vget (Hands obs) player) (\<lambda>hand.
     ebind (forM (Knowledge hand) (encode_knowledge game) (encoding, offset, 0))
       (\<lambda>(enc, offset1, num_cards).
     Inr (enc,
          if num_cards < HandSize game
          then offset1 + (HandSize game - num_cards) *
                 (BitsPerCard game + NumColors game + NumRanks game)
          else offset1))))"

definition EncodeCardKnowledge ::
  "HanabiGame \<Rightarrow> HanabiObservation \<Rightarrow> int \<Rightarrow> rat list \<Rightarrow> error + (rat list \<times> int)" where
  "EncodeCardKnowledge game obs start_offset encoding =
     ebind (check (int (length (Hands obs)) = NumPlayers game) AssertFailed) (\<lambda>_.
     ebind (forM (ints_below (NumPlayers game)) (encode_hand_knowledge game obs)
              (encoding, start_offset)) (\<lambda>(enc, offset).
     ebind (check (offset - start_offset = CardKnowledgeSectionLength game)
              SectionLengthAssert) (\<lambda>_.
     Inr (enc, offset - start_offset))))"

subsection \<open>Card counts\<close>

definition count_full_deck ::
  "HanabiGame \<Rightarrow> int \<Rightarrow> int \<Rightarrow> int list \<times> int \<Rightarrow> error + (int list \<times> int)" where
  "count_full_deck game color rank = (\<lambda>(card_count, total_count).
     let count = NumberCardInstances game color rank in
     ebind (vset card_count (color * NumRanks game + rank) count) (\<lambda>cc.
     Inr (cc, total_count + count)))"

text \<open>\<^verbatim>\<open>--card_count[k]; --total_count;\<close>\<close>

definition remove_card :: "int \<Rightarrow> int list \<times> int \<Rightarrow> error + (int list \<times> int)" where
  "remove_card k = (\<lambda>(card_count, total_count).
     ebind (vget card_count k) (\<lambda>v.
     ebind (vset card_count k (v - 1)) (\<lambda>cc.
     Inr (cc, total_count - 1))))"

definition remove_fireworks ::
  "HanabiGame \<Rightarrow> int list \<Rightarrow> int \<Rightarrow> int list \<times> int \<Rightarrow> error + (int list \<times> int)" where
  "remove_fireworks game fireworks c st =
     ebind (vget fireworks c) (\<lambda>fw.
     if fw > 0
     then forM (ints_below fw) (\<lambda>rank. remove_card (c * NumRanks game + rank)) st
     else Inr st)"

definition total_hand_size :: "HanabiHand list \<Rightarrow> int" where
  "total_hand_size hands = foldl (\<lambda>n hand. n + int (length (Cards hand))) 0 hands"

definition ComputeCardCount :: "HanabiGame \<Rightarrow> HanabiObservation \<Rightarrow> error + int list" where
  "ComputeCardCount game obs =
     (let num_colors = NumColors game;
          num_ranks = NumRanks game
      in
      ebind (forM (ints_below num_colors)
               (\<lambda>color. forM (ints_below num_ranks) (count_full_deck game color))
               (replicate (nat (num_colors * num_ranks)) 0, 0)) (\<lambda>st1.
      ebind (forM (DiscardPile obs)
               (\<lambda>crd. remove_card (card_Color crd * num_ranks + card_Rank crd)) st1) (\<lambda>st2.
      ebind (forM (ints_below num_colors) (remove_fireworks game (Fireworks obs)) st2)
        (\<lambda>(card_count, total_count).
      ebind (check (total_count = DeckSize obs + total_hand_size (Hands obs)) AssertFailed)
        (\<lambda>_.
      Inr card_count)))))"

subsection \<open>Belief, version 0\<close>

text \<open>
  One hand slot of \<^verbatim>\<open>EncodeV0Belief_\<close>: \<open>base\<close> is
  \<^verbatim>\<open>start_offset + player_offset * player_id + card_idx * per_card_offset\<close>.
\<close>

definition v0_weigh ::
  "int list \<Rightarrow> int \<Rightarrow> int \<Rightarrow> int \<Rightarrow> int \<Rightarrow> rat list \<times> rat \<Rightarrow> error + (rat list \<times> rat)" where
  "v0_weigh card_count start_offset len base i = (\<lambda>(encoding, total).
     let offset = base + i in
     ebind (check (offset - start_offset < len) AssertFailed) (\<lambda>_.
     ebind (vget encoding offset) (\<lambda>v.
     ebind (vget card_count i) (\<lambda>c.
     let v' = v * of_int c in
     ebind (vset encoding offset v') (\<lambda>enc.
     Inr (enc, total + v'))))))"

definition normalize_at :: "rat \<Rightarrow> int \<Rightarrow> int \<Rightarrow> rat list \<Rightarrow> error + rat list" where
  "normalize_at total_sum base i encoding =
     (let offset = base + i in
      ebind (vget encoding offset) (\<lambda>v. vset encoding offset (v / total_sum)))"

definition v0_slot ::
  "int \<Rightarrow> int list \<Rightarrow> int \<Rightarrow> int \<Rightarrow> int \<Rightarrow> rat list \<Rightarrow> error + rat list" where
  "v0_slot n card_count start_offset len base encoding =
     ebind (forM (ints_below n) (v0_weigh card_count start_offset len base) (encoding, 0))
       (\<lambda>(enc, total).
     ebind (check (\<not> total \<le> 0) AssertFailed) (\<lambda>_.
     forM (ints_below n) (normalize_at total base) enc))"

text \<open>
  The loop nest of \<^verbatim>\<open>EncodeV0Belief_\<close> over the occupied hand slots:
  \<^verbatim>\<open>for (player_id < num_players) { num_cards = hands[player_id].Cards().size();
  for (card_idx < num_cards) body }\<close>.
\<close>

definition for_each_slot ::
  "HanabiObservation \<Rightarrow> int \<Rightarrow> (int \<Rightarrow> int \<Rightarrow> 's \<Rightarrow> error + 's) \<Rightarrow> 's \<Rightarrow> error + 's" where
  "for_each_slot obs num_players body st =
     forM (ints_below num_players)
       (\<lambda>player_id st'.
          ebind (vget (Hands obs) player_id) (\<lambda>hand.
          let num_cards = int (length (Cards hand)) in
          forM (ints_below num_cards) (body player_id) st'))
       st"

text \<open>
  \<^verbatim>\<open>EncodeV0Belief_\<close>; the card counts, which the source hands back through the
  optional pointer \<^verbatim>\<open>ret_card_count\<close>, are the third component of the result.
\<close>

definition EncodeV0Belief_impl ::
  "HanabiGame \<Rightarrow> HanabiObservation \<Rightarrow> int \<Rightarrow> rat list \<Rightarrow>
     error + (rat list \<times> int \<times> int list)" where
  "EncodeV0Belief_impl game obs start_offset encoding =
     (let num_colors = NumColors game;
          num_ranks = NumRanks game;
          num_players = NumPlayers game;
          hand_size = HandSize game
      in
      ebind (ComputeCardCount game obs) (\<lambda>card_count.
      ebind (EncodeCardKnowledge game obs start_offset encoding) (\<lambda>(enc, len).
      ebind (idiv len num_players) (\<lambda>player_offset.
      ebind (idiv len hand_size) (\<lambda>q.
      ebind (idiv q num_players) (\<lambda>per_card_offset.
      ebind (check (per_card_offset = num_colors * num_ranks + num_colors + num_ranks)
               SectionLengthAssert) (\<lambda>_.
      ebind (for_each_slot obs num_players
               (\<lambda>player_id card_idx.
                  v0_slot (num_colors * num_ranks) card_count start_offset len
                    (start_offset + player_offset * player_id + card_idx * per_card_offset))
               enc) (\<lambda>enc'.
      Inr (enc', len, card_count)))))))))"

text \<open>
  \<^verbatim>\<open>EncodeV1Belief_\<close> refines this belief by 100 damped iterations of \<^verbatim>\<open>float\<close>
  arithmetic with the weight \<^verbatim>\<open>0.1\<close>, both fixed in its body. What it returns depends on
  the rounding of every operation, which buffer entries taken as rationals do not have;
  it is not part of this embedding.
\<close>

subsection \<open>The accessors and the top-level encoder\<close>

definition ExtractBelief :: "rat list \<Rightarrow> HanabiGame \<Rightarrow> error + rat list" where
  "ExtractBelief encoding game =
     (let bits_per_card = BitsPerCard game;
          num_players = NumPlayers game;
          hand_size = HandSize game;
          encoding_sector_len = bits_per_card + NumColors game + NumRanks game
      in
      ebind (check (encoding_sector_len * hand_size * num_players = int (length encoding))
               SectionLengthAssert) (\<lambda>_.
      forM (ints_below num_players)
        (\<lambda>i. forM (ints_below hand_size)
          (\<lambda>j. forM (ints_below bits_per_card)
            (\<lambda>k belief.
               let belief_offset = (i * hand_size + j) * bits_per_card + k;
                   encoding_offset = (i * hand_size + j) * encoding_sector_len + k
               in ebind (vget encoding encoding_offset) (\<lambda>v. vset belief belief_offset v))))
        (zeros (num_players * hand_size * bits_per_card))))"

definition EncodeV0Belief :: "HanabiGame \<Rightarrow> HanabiObservation \<Rightarrow> error + rat list" where
  "EncodeV0Belief game obs =
     ebind (EncodeV0Belief_impl game obs 0 (zeros (CardKnowledgeSectionLength game)))
       (\<lambda>(encoding, len, card_count).
     ebind (check (len = int (length encoding)) SectionLengthAssert) (\<lambda>_.
     ExtractBelief encoding game))"

definition EncodeHandMask :: "HanabiGame \<Rightarrow> HanabiObservation \<Rightarrow> error + rat list" where
  "EncodeHandMask game obs =
     ebind (EncodeCardKnowledge game obs 0 (zeros (CardKnowledgeSectionLength game)))
       (\<lambda>(encoding, len). ExtractBelief encoding game)"

definition Encode :: "HanabiGame \<Rightarrow> HanabiObservation \<Rightarrow> bool \<Rightarrow> error + rat list" where
  "Encode game obs show_own_cards =
     (let encoding = zeros (FlatLength (Shape game)) in
      ebind (EncodeHands game obs 0 encoding show_own_cards) (\<lambda>(enc1, n1).
      let offset1 = 0 + n1 in
      ebind (EncodeBoard game obs offset1 enc1) (\<lambda>(enc2, n2).
      let offset2 = offset1 + n2 in
      ebind (EncodeDiscards game obs offset2 enc2) (\<lambda>(enc3, n3).
      let offset3 = offset2 + n3 in
      ebind (EncodeLastAction_impl game obs offset3 enc3) (\<lambda>(enc4, n4).
      let offset4 = offset3 + n4 in
      ebind (if ObservationType game \<noteq> kMinimal
             then ebind (EncodeV0Belief_impl game obs offset4 enc4) (\<lambda>(enc5, n5, card_count).
                  Inr (enc5, offset4 + n5))
             else Inr (enc4, offset4)) (\<lambda>(enc5, offset5).
      ebind (check (offset5 = int (length enc5)) SectionLengthAssert) (\<lambda>_.
      Inr enc5)))))))"

subsection \<open>Valid games\<close>

text \<open>
  What the construction of a game guarantees: positive dimensions, token maxima that are
  not negative, a count of instances that is not negative for every card value, a deck
  that holds exactly these instances and is large enough to deal every hand.
\<close>

definition deck_total :: "HanabiGame \<Rightarrow> int" where
  "deck_total g =
     sum_list (map (\<lambda>c. sum_list (map (\<lambda>r. NumberCardInstances g c r)
        (ints_below (NumRanks g)))) (ints_below (NumColors g)))"

definition valid_game :: "HanabiGame \<Rightarrow> bool" where
  "valid_game g =
     (0 < NumColors g \<and> 0 < NumRanks g \<and> 0 < NumPlayers g \<and> 0 < HandSize g \<and>
      0 \<le> MaxInformationTokens g \<and> 0 \<le> MaxLifeTokens g \<and>
      list_all (\<lambda>c. list_all (\<lambda>r. 0 \<le> NumberCardInstances g c r)
        (ints_below (NumRanks g))) (ints_below (NumColors g)) \<and>
      MaxDeckSize g = deck_total g \<and>
      NumPlayers g * HandSize g \<le> MaxDeckSize g)"

subsection \<open>Games and observations used as examples\<close>

text \<open>
  The standard two-player game (five colours, five ranks, hands of five, three copies of
  the lowest rank, one of the highest, two of the others) and a small game with two
  colours and two ranks.
\<close>

definition standard_game :: HanabiGame where
  "standard_game = \<lparr>NumColors = 5, NumRanks = 5, NumPlayers = 2, HandSize = 5, MaxDeckSize = 50,
     MaxInformationTokens = 8, MaxLifeTokens = 3,
     NumberCardInstances = (\<lambda>c r. if r = 0 then 3 else if r = 4 then 1 else 2),
     ObservationType = kCardKnowledge\<rparr>"

definition small_game :: HanabiGame where
  "small_game = \<lparr>NumColors = 2, NumRanks = 2, NumPlayers = 2, HandSize = 2, MaxDeckSize = 6,
     MaxInformationTokens = 2, MaxLifeTokens = 1,
     NumberCardInstances = (\<lambda>c r. if r = 0 then 2 else 1),
     ObservationType = kCardKnowledge\<rparr>"

definition deal_item :: HanabiHistoryItem where
  "deal_item = \<lparr>item_move = \<lparr>move_Type = kDeal, move_CardIndex = -1, move_TargetOffset = -1,
       move_Color = 0, move_Rank = 1\<rparr>,
     item_player = -1, item_scored = False, item_information_token = False,
     item_color = -1, item_rank = -1, item_reveal_bitmask = 0\<rparr>"

definition hint_item :: HanabiHistoryItem where
  "hint_item = \<lparr>item_move = \<lparr>move_Type = kRevealColor, move_CardIndex = -1, move_TargetOffset = 1,
       move_Color = 2, move_Rank = -1\<rparr>,
     item_player = 0, item_scored = False, item_information_token = False,
     item_color = -1, item_rank = -1, item_reveal_bitmask = 9\<rparr>"

definition hint_obs :: HanabiObservation where
  "hint_obs = \<lparr>Hands = [], DiscardPile = [], Fireworks = [0,0,0,0,0], DeckSize = 40,
     InformationTokens = 7, LifeTokens = 3, LastMoves = [deal_item, hint_item]\<rparr>"

definition obs_start :: HanabiObservation where
  "obs_start = \<lparr>Hands = [], DiscardPile = [], Fireworks = [0, 0], DeckSize = 2,
     InformationTokens = 2, LifeTokens = 1, LastMoves = [deal_item, deal_item]\<rparr>"

definition shown_obs :: HanabiObservation where
  "shown_obs = \<lparr>Hands = [\<lparr>Cards = [\<lparr>card_Color = 0, card_Rank = 0, card_IsValid = True\<rparr>,
                                     \<lparr>card_Color = 1, card_Rank = 0, card_IsValid = True\<rparr>,
                                     \<lparr>card_Color = 1, card_Rank = 1, card_IsValid = True\<rparr>],
                            Knowledge = []\<rparr>],
     DiscardPile = [], Fireworks = [1, 0], DeckSize = 2,
     InformationTokens = 2, LifeTokens = 1, LastMoves = []\<rparr>"

subsection \<open>The own-hand summary, read in groups of three\<close>

text \<open>
  \<open>group_at enc k\<close> is the group of card \<open>k\<close>. \<open>own_hand_group\<close> is the group in
  the order card at / below / above the firework of its colour; \<open>claimed_own_hand_group\<close>
  is the group in the order below / at / above.
\<close>

definition own_hand_group :: "int \<Rightarrow> int \<Rightarrow> rat list" where
  "own_hand_group rank firework =
     (if rank = firework then [1, 0, 0] else if rank < firework then [0, 1, 0] else [0, 0, 1])"

definition claimed_own_hand_group :: "int \<Rightarrow> int \<Rightarrow> rat list" where
  "claimed_own_hand_group rank firework =
     (if rank < firework then [1, 0, 0] else if rank = firework then [0, 1, 0] else [0, 0, 1])"

definition group_at :: "rat list \<Rightarrow> nat \<Rightarrow> rat list" where
  "group_at enc k = [enc ! (3 * k), enc ! (3 * k + 1), enc ! (3 * k + 2)]"

definition own_hand_inv ::
  "int list \<Rightarrow> HanabiCard list \<Rightarrow> nat \<Rightarrow> rat list \<times> int \<Rightarrow> bool" where
  "own_hand_inv fws cards j = (\<lambda>(e, off).
     off = 3 * int j \<and> length e = 15 \<and>
     (\<forall>k<j. in_bounds fws (card_Color (cards ! k)) \<and>
        group_at e k = own_hand_group (card_Rank (cards ! k)) (fws ! nat (card_Color (cards ! k)))) \<and>
     (\<forall>i. 3 * j \<le> i \<and> i < 15 \<longrightarrow> e ! i = 0))"

subsection \<open>Notions used in the statements about buffers and hands\<close>

text \<open>
  \<open>only_ones enc enc'\<close>: the buffer \<open>enc'\<close> has the length of \<open>enc\<close> and differs from
  it only where it holds 1. \<open>hands_fit\<close>: no hand holds more cards, or more card
  knowledge, than the hand size of the game. \<open>SectorLength\<close> is the width of one hand
  slot in the card-knowledge section.
\<close>

definition only_ones :: "rat list \<Rightarrow> rat list \<Rightarrow> bool" where
  "only_ones enc enc' =
     (length enc' = length enc \<and> (\<forall>j<length enc. enc' ! j = enc ! j \<or> enc' ! j = 1))"

definition SectorLength :: "HanabiGame \<Rightarrow> int" where
  "SectorLength g = BitsPerCard g + NumColors g + NumRanks g"

definition hands_fit :: "HanabiGame \<Rightarrow> HanabiObservation \<Rightarrow> bool" where
  "hands_fit g obs =
     list_all (\<lambda>hand. int (length (Cards hand)) \<le> HandSize g \<and>
                       int (length (Knowledge hand)) \<le> HandSize g) (Hands obs)"

definition any_card :: CardKnowledge where
  "any_card = \<lparr>ColorPlausible = (\<lambda>c. True), RankPlausible = (\<lambda>r. True),
      ColorHinted = False, ck_Color = -1, RankHinted = False, ck_Rank = -1\<rparr>"

definition first_color :: CardKnowledge where
  "first_color = \<lparr>ColorPlausible = (\<lambda>c. c = 0), RankPlausible = (\<lambda>r. True),
      ColorHinted = True, ck_Color = 0, RankHinted = False, ck_Rank = -1\<rparr>"

definition hidden_card :: HanabiCard where
  "hidden_card = \<lparr>card_Color = -1, card_Rank = -1, card_IsValid = False\<rparr>"

definition small_obs :: HanabiObservation where
  "small_obs =
     \<lparr>Hands = [\<lparr>Cards = [hidden_card, hidden_card], Knowledge = [any_card, first_color]\<rparr>,
               \<lparr>Cards = [\<lparr>card_Color = 1, card_Rank = 0, card_IsValid = True\<rparr>],
                Knowledge = [any_card]\<rparr>],
      DiscardPile = [\<lparr>card_Color = 0, card_Rank = 0, card_IsValid = True\<rparr>],
      Fireworks = [0, 1], DeckSize = 1,
      InformationTokens = 1, LifeTokens = 1, LastMoves = []\<rparr>"

subsection \<open>Notions used in the statements about card counts\<close>

text \<open>
  The number of removals \<^verbatim>\<open>ComputeCardCount\<close> makes at the flat card index \<open>k\<close>: one for
  every card of the discard pile with that index, and one for every colour whose
  firework covers it.
\<close>

definition removed_count :: "HanabiGame \<Rightarrow> HanabiObservation \<Rightarrow> int \<Rightarrow> int" where
  "removed_count g obs k =
     int (length (filter (\<lambda>crd. card_Color crd * NumRanks g + card_Rank crd = k)
            (DiscardPile obs))) +
     int (length (filter (\<lambda>c. c * NumRanks g \<le> k \<and> k < c * NumRanks g + Fireworks obs ! nat c)
            (ints_below (NumColors g))))"

definition within_deck :: "HanabiGame \<Rightarrow> HanabiObservation \<Rightarrow> bool" where
  "within_deck g obs =
     list_all (\<lambda>c. list_all (\<lambda>r.
         removed_count g obs (c * NumRanks g + r) \<le> NumberCardInstances g c r)
       (ints_below (NumRanks g))) (ints_below (NumColors g))"

text \<open>
  The invariant of the first loop nest of \<^verbatim>\<open>ComputeCardCount\<close> when it is about to
  write the flat index \<open>k\<close>: the entries below \<open>k\<close> hold the instance counts, the
  others are still 0, and \<^verbatim>\<open>total_count\<close> is the sum of the entries.
\<close>

definition deck_inv :: "HanabiGame \<Rightarrow> nat \<Rightarrow> int \<Rightarrow> int list \<times> int \<Rightarrow> bool" where
  "deck_inv g N k = (\<lambda>(cc, t).
     length cc = N \<and> sum_list cc = t \<and>
     (\<forall>j. k \<le> int j \<and> j < N \<longrightarrow> cc ! j = 0) \<and>
     (\<forall>j. int j < k \<and> j < N \<longrightarrow>
        cc ! j = NumberCardInstances g (int j div NumRanks g) (int j mod NumRanks g)))"

definition over_discarded_obs :: HanabiObservation where
  "over_discarded_obs =
     \<lparr>Hands = [\<lparr>Cards = [hidden_card, hidden_card], Knowledge = [any_card, any_card]\<rparr>,
               \<lparr>Cards = [\<lparr>card_Color = 1, card_Rank = 0, card_IsValid = True\<rparr>],
                Knowledge = [any_card]\<rparr>],
      DiscardPile = [\<lparr>card_Color = 0, card_Rank = 1, card_IsValid = True\<rparr>,
                     \<lparr>card_Color = 0, card_Rank = 1, card_IsValid = True\<rparr>],
      Fireworks = [0, 0], DeckSize = 1,
      InformationTokens = 1, LifeTokens = 1, LastMoves = []\<rparr>"


subsection \<open>Notions used in the statements about beliefs\<close>

text \<open>
  The sub-block of a hand slot that holds its \<open>n\<close> card values starts at \<open>base\<close>:
  \<open>in_slot\<close> says that an index lies in it, \<open>slot_sum\<close> is the sum of its entries,
  \<open>slot_total\<close> the sum of its entries weighted by the card counts (the total that
  \<^verbatim>\<open>EncodeV0Belief_\<close> divides by). \<open>slot_base\<close> is the start of the sub-block of card
  \<open>k\<close> of player \<open>p\<close> in a card-knowledge section that starts at \<open>start\<close>.
\<close>

definition in_slot :: "int \<Rightarrow> int \<Rightarrow> nat \<Rightarrow> bool" where
  "in_slot base n j = (base \<le> int j \<and> int j < base + n)"

definition slot_sum :: "rat list \<Rightarrow> int \<Rightarrow> int \<Rightarrow> rat" where
  "slot_sum enc base n = sum_list (map (\<lambda>i. enc ! nat (base + i)) (ints_below n))"

definition slot_total :: "rat list \<Rightarrow> int list \<Rightarrow> int \<Rightarrow> int \<Rightarrow> rat" where
  "slot_total enc cc base n =
     sum_list (map (\<lambda>i. enc ! nat (base + i) * of_int (cc ! nat i)) (ints_below n))"

definition slot_base :: "HanabiGame \<Rightarrow> int \<Rightarrow> nat \<Rightarrow> nat \<Rightarrow> int" where
  "slot_base g start p k =
     start + HandSize g * SectorLength g * int p + int k * SectorLength g"

text \<open>
  The invariant of the loop over the hand slots in \<^verbatim>\<open>EncodeV0Belief_\<close>, for the set
  \<open>P\<close> of the slots done, with \<open>B\<close> giving the start of a slot's sub-block and \<open>raw\<close> the
  buffer as \<^verbatim>\<open>EncodeCardKnowledge\<close> left it: a zero of \<open>raw\<close> is still a zero, the
  sub-block of a slot done sums to 1 and its weighted total in \<open>raw\<close> is positive, and
  outside the sub-blocks of the slots done the buffer is \<open>raw\<close>.
\<close>

definition v0_inv ::
  "rat list \<Rightarrow> int list \<Rightarrow> int \<Rightarrow> (nat \<times> nat \<Rightarrow> int) \<Rightarrow> (nat \<times> nat) set \<Rightarrow> rat list \<Rightarrow> bool"
  where
  "v0_inv raw cc n B P e =
     (length e = length raw \<and>
      (\<forall>j<length raw. raw ! j = 0 \<longrightarrow> e ! j = 0) \<and>
      (\<forall>s\<in>P. 0 \<le> B s \<and> B s + n \<le> int (length raw) \<and> slot_sum e (B s) n = 1 \<and>
              0 < slot_total raw cc (B s) n) \<and>
      (\<forall>j<length raw. (\<forall>s\<in>P. \<not> in_slot (B s) n j) \<longrightarrow> e ! j = raw ! j))"

definition occupied :: "HanabiGame \<Rightarrow> HanabiObservation \<Rightarrow> (nat \<times> nat) set" where
  "occupied g obs =
     {(p, k). p < nat (NumPlayers g) \<and> k < length (Cards (Hands obs ! p))}"

definition weigh_inv ::
  "rat list \<Rightarrow> int list \<Rightarrow> int \<Rightarrow> nat \<Rightarrow> rat list \<times> rat \<Rightarrow> bool" where
  "weigh_inv e cc base i = (\<lambda>(e1, t).
     length e1 = length e \<and> t = slot_total e cc base (int i) \<and>
     (\<forall>k<i. in_bounds e (base + int k) \<and> in_bounds cc (int k)) \<and>
     (\<forall>j<length e. e1 ! j =
        (if in_slot base (int i) j then e ! j * of_int (cc ! nat (int j - base)) else e ! j)))"

definition norm_inv :: "rat list \<Rightarrow> rat \<Rightarrow> int \<Rightarrow> nat \<Rightarrow> rat list \<Rightarrow> bool" where
  "norm_inv e1 t base i = (\<lambda>e2.
     length e2 = length e1 \<and>
     (\<forall>j<length e1. e2 ! j = (if in_slot base (int i) j then e1 ! j / t else e1 ! j)))"


subsection \<open>Notions used in the statements about discards\<close>

text \<open>
  The Discards section as the specification describes it. \<open>discard_copies obs c r\<close> is
  the number of cards of colour \<open>c\<close> and rank \<open>r\<close> in the discard pile, \<open>discard_field\<close>
  is a field of the given width whose first \<open>k\<close> entries are 1 and whose other entries
  are 0, and \<open>discards_section\<close> lists the fields of all card values, colour by colour
  and rank by rank. \<open>discards_fit\<close> holds of an observation whose discarded cards have a
  colour and a rank of the game and are, for every card value, no more than the deck has
  instances of it.
\<close>

definition discard_copies :: "HanabiObservation \<Rightarrow> int \<Rightarrow> int \<Rightarrow> int" where
  "discard_copies obs c r =
     int (length (filter (\<lambda>crd. card_Color crd = c \<and> card_Rank crd = r) (DiscardPile obs)))"

definition discard_field :: "int \<Rightarrow> int \<Rightarrow> rat list" where
  "discard_field width k = replicate (nat k) 1 @ replicate (nat (width - k)) 0"

definition discards_section :: "HanabiGame \<Rightarrow> HanabiObservation \<Rightarrow> rat list" where
  "discards_section g obs =
     concat (map (\<lambda>c. concat (map (\<lambda>r.
         discard_field (NumberCardInstances g c r) (discard_copies obs c r))
       (ints_below (NumRanks g)))) (ints_below (NumColors g)))"

definition discards_fit :: "HanabiGame \<Rightarrow> HanabiObservation \<Rightarrow> bool" where
  "discards_fit g obs =
     (list_all (\<lambda>crd. 0 \<le> card_Color crd \<and> card_Color crd < NumColors g \<and>
                      0 \<le> card_Rank crd \<and> card_Rank crd < NumRanks g) (DiscardPile obs) \<and>
      list_all (\<lambda>c. list_all (\<lambda>r. discard_copies obs c r \<le> NumberCardInstances g c r)
        (ints_below (NumRanks g))) (ints_below (NumColors g)))"

subsection \<open>Notions used in the statement about the values of the belief\<close>




section \<open>Properties\<close>

subsection \<open>The error monad and loops\<close>

lemma ebind_Inr [simp]: "ebind (Inr x) f = f x"
  by (simp add: ebind_def)

lemma ebind_Inl [simp]: "ebind (Inl e) f = Inl e"
  by (simp add: ebind_def)

lemma ebind_eq_Inr: "ebind m f = Inr y \<longleftrightarrow> (\<exists>x. m = Inr x \<and> f x = Inr y)"
  by (cases m) simp_all

lemma ebind_eq_Inl: "ebind m f = Inl e \<longleftrightarrow> m = Inl e \<or> (\<exists>x. m = Inr x \<and> f x = Inl e)"
  by (cases m) simp_all

lemma check_eq_Inr [simp]: "check b e = Inr u \<longleftrightarrow> b"
  by (simp add: check_def)

lemma check_eq_Inl [simp]: "check b e = Inl e' \<longleftrightarrow> \<not> b \<and> e = e'"
  by (auto simp: check_def)

lemma check_True [simp]: "check True e = Inr ()"
  by (simp add: check_def)

lemma vset_eq_Inr: "vset xs k v = Inr ys \<longleftrightarrow> in_bounds xs k \<and> ys = xs[nat k := v]"
  by (auto simp: vset_def)

lemma vget_eq_Inr: "vget xs k = Inr y \<longleftrightarrow> in_bounds xs k \<and> y = xs ! nat k"
  by (auto simp: vget_def)

lemma vset_eq_Inl: "vset xs k v = Inl e \<longleftrightarrow> \<not> in_bounds xs k \<and> e = OutOfRange"
  by (auto simp: vset_def)

lemma vget_eq_Inl: "vget xs k = Inl e \<longleftrightarrow> \<not> in_bounds xs k \<and> e = OutOfRange"
  by (auto simp: vget_def)

lemma forM_append: "forM (xs @ ys) f s = ebind (forM xs f s) (forM ys f)"
  by (induction xs arbitrary: s) (simp_all add: ebind_def split: sum.splits)

lemma forM_snoc: "forM (xs @ [x]) f s = ebind (forM xs f s) (f x)"
  by (simp add: forM_append ebind_def split: sum.splits)

lemma forM_map: "forM (map g xs) f s = forM xs (\<lambda>x. f (g x)) s"
  by (induction xs arbitrary: s) (simp_all add: ebind_def split: sum.splits)

lemma forM_cong: "(\<And>x s. x \<in> set xs \<Longrightarrow> f x s = g x s) \<Longrightarrow> forM xs f s = forM xs g s"
  by (induction xs arbitrary: s) (simp_all add: ebind_def split: sum.splits)

lemma ints_below_Suc: "0 \<le> n \<Longrightarrow> ints_below (n + 1) = ints_below n @ [n]"
  by (simp add: ints_below_def nat_add_distrib)

lemma ints_below_nonpos [simp]: "n \<le> 0 \<Longrightarrow> ints_below n = []"
  by (simp add: ints_below_def)

lemma length_ints_below [simp]: "length (ints_below n) = nat n"
  by (simp add: ints_below_def)

lemma nth_ints_below [simp]: "i < nat n \<Longrightarrow> ints_below n ! i = int i"
  by (simp add: ints_below_def)

lemma set_ints_below: "set (ints_below n) = {0..<n}"
proof -
  have "x \<in> int ` {0..<nat n} \<longleftrightarrow> 0 \<le> x \<and> x < n" for x
  proof
    assume "x \<in> int ` {0..<nat n}"
    then show "0 \<le> x \<and> x < n" by auto
  next
    assume "0 \<le> x \<and> x < n"
    then have "nat x \<in> {0..<nat n}" "x = int (nat x)" by auto
    then show "x \<in> int ` {0..<nat n}" by blast
  qed
  then show ?thesis by (auto simp: ints_below_def)
qed

text \<open>Rules for loops: an invariant, an invariant indexed by the number of iterations done,
  the absence of an error, and success.\<close>

lemma forM_invariant:
  assumes "forM xs f s = Inr s'" and "I s"
    and "\<And>x t t'. x \<in> set xs \<Longrightarrow> I t \<Longrightarrow> f x t = Inr t' \<Longrightarrow> I t'"
  shows "I s'"
  using assms
proof (induction xs arbitrary: s)
  case Nil
  then show ?case by simp
next
  case (Cons x xs)
  from Cons.prems(1) obtain t where t: "f x s = Inr t" "forM xs f t = Inr s'"
    by (auto simp: ebind_eq_Inr)
  have "I t" using Cons.prems(3) [of x s t] Cons.prems(2) t(1) by simp
  show ?case
  proof (rule Cons.IH [OF t(2) \<open>I t\<close>])
    fix y u u' assume "y \<in> set xs" "I u" "f y u = Inr u'"
    then show "I u'" using Cons.prems(3) [of y u u'] by simp
  qed
qed

lemma forM_invariant_idx:
  assumes "forM xs f s = Inr s'" and "I 0 s"
    and "\<And>i t t'. i < length xs \<Longrightarrow> I i t \<Longrightarrow> f (xs ! i) t = Inr t' \<Longrightarrow> I (Suc i) t'"
  shows "I (length xs) s'"
  using assms
proof (induction xs arbitrary: s' rule: rev_induct)
  case Nil
  then show ?case by simp
next
  case (snoc x xs)
  from snoc.prems(1) obtain t where t: "forM xs f s = Inr t" "f x t = Inr s'"
    by (auto simp: forM_snoc ebind_eq_Inr)
  have "I (length xs) t"
  proof (rule snoc.IH [OF t(1) snoc.prems(2)])
    fix i u u' assume "i < length xs" "I i u" "f (xs ! i) u = Inr u'"
    then show "I (Suc i) u'"
      using snoc.prems(3) [of i u u'] by (simp add: nth_append)
  qed
  then show ?case using snoc.prems(3) [of "length xs" t s'] t(2) by simp
qed

lemma forM_no_error:
  assumes "\<And>x t. x \<in> set xs \<Longrightarrow> f x t \<noteq> Inl e"
  shows "forM xs f s \<noteq> Inl e"
  using assms
  by (induction xs arbitrary: s) (auto simp: ebind_eq_Inl)

lemma forM_succeeds:
  assumes "I s" and "\<And>x t. x \<in> set xs \<Longrightarrow> I t \<Longrightarrow> \<exists>t'. f x t = Inr t' \<and> I t'"
  shows "\<exists>s'. forM xs f s = Inr s' \<and> I s'"
  using assms
proof (induction xs arbitrary: s)
  case Nil
  then show ?case by simp
next
  case (Cons x xs)
  from Cons.prems obtain t where t: "f x s = Inr t" "I t" by force
  from Cons.IH [OF t(2)] Cons.prems(2) obtain s' where "forM xs f t = Inr s' \<and> I s'"
    by force
  then show ?case using t by simp
qed


subsection \<open>Shape\<close>

text \<open>
  C2. \<^verbatim>\<open>Shape()\<close> is the one-element shape holding the sum of the Hands, Board,
  Discards and LastAction section lengths of the specification, plus the CardKnowledge
  length unless the observation type of the game is minimal. It is a function of the
  game alone.
\<close>

theorem Shape_is_spec_total:
  "Shape g = [spec_total_length (ObservationType g) g] \<and>
   FlatLength (Shape g) = spec_total_length (ObservationType g) g"
  by (cases "ObservationType g")
    (simp_all add: Shape_def FlatLength_def spec_total_length_def spec_hands_length_def
      spec_board_length_def spec_discards_length_def spec_last_action_length_def
      spec_card_knowledge_length_def HandsSectionLength_def BoardSectionLength_def
      DiscardSectionLength_def LastActionSectionLength_def CardKnowledgeSectionLength_def
      BitsPerCard_def)

subsection \<open>The last action\<close>

lemma valid_small_game: "valid_game small_game"
  by (simp add: valid_game_def small_game_def deck_total_def ints_below_def upt_rec
      numeral_eq_Suc)

lemma find_None_all_deal:
  "(\<forall>item \<in> set ms. move_Type (item_move item) = kDeal) \<Longrightarrow> GetLastNonDealMove ms = None"
  by (simp add: GetLastNonDealMove_def find_None_iff)

lemma LastActionSectionLength_nonneg: "valid_game g \<Longrightarrow> 0 \<le> LastActionSectionLength g"
  by (simp add: valid_game_def LastActionSectionLength_def BitsPerCard_def)

text \<open>
  C9. When the move history holds no move other than deals, \<^verbatim>\<open>EncodeLastAction_\<close>
  writes nothing and advances the cursor by the whole section length, and
  \<^verbatim>\<open>EncodeLastAction\<close> returns the vector of zeros of that length.
\<close>

theorem EncodeLastAction_no_move:
  assumes "valid_game g"
    and "\<forall>item \<in> set (LastMoves obs). move_Type (item_move item) = kDeal"
  shows "EncodeLastAction_impl g obs start_offset encoding =
           Inr (encoding, LastActionSectionLength g) \<and>
         EncodeLastAction g obs = Inr (replicate (nat (LastActionSectionLength g)) 0)"
  using find_None_all_deal [OF assms(2)] LastActionSectionLength_nonneg [OF assms(1)]
  by (simp add: EncodeLastAction_impl_def EncodeLastAction_def zeros_def)

theorem EncodeLastAction_no_move_witness:
  "valid_game small_game \<and> list_all (\<lambda>item. move_Type (item_move item) = kDeal) (LastMoves obs_start) \<and>
   EncodeLastAction small_game obs_start = Inr (replicate 22 0)"
proof -
  have v: "valid_game small_game" by (rule valid_small_game)
  have d: "\<forall>item \<in> set (LastMoves obs_start). move_Type (item_move item) = kDeal"
    by (simp add: obs_start_def deal_item_def)
  have "nat (LastActionSectionLength small_game) = 22"
    by (simp add: LastActionSectionLength_def BitsPerCard_def small_game_def)
  with EncodeLastAction_no_move [OF v d, of 0 "[]"] v d show ?thesis
    by (simp add: list_all_iff)
qed


text \<open>The scenario: after a deal, player 0 reveals colour 2 to player 1, touching slots 0 and 3.\<close>

lemma hint_obs_encoding:
  "EncodeLastAction standard_game hint_obs =
     Inr ([1, 0] @ [0, 0, 1, 0] @ [0, 1] @ [0, 0, 1, 0, 0] @ [0, 0, 0, 0, 0] @ [1, 0, 0, 1, 0] @
          [0, 0, 0, 0, 0] @ replicate 25 0 @ [0, 0])"
  by code_simp

text \<open>
  C6, as stated, fails: among the four move-type entries the encoder sets entry 2 for a
  colour hint, and entry 1 (which stands for a discard) stays 0.
\<close>

theorem last_action_move_type_bit_counterexample:
  "EncodeLastAction standard_game hint_obs =
     Inr ([1, 0] @ [0, 0, 1, 0] @ [0, 1] @ [0, 0, 1, 0, 0] @ [0, 0, 0, 0, 0] @ [1, 0, 0, 1, 0] @
          [0, 0, 0, 0, 0] @ replicate 25 0 @ [0, 0]) \<and>
   NumPlayers standard_game = 2 \<and>
   ([1, 0] @ [0, 0, 1, 0] @ [0, 1] @ [0, 0, 1, 0, 0] @ [0, 0, 0, 0, 0] @ [1, 0, 0, 1, 0] @
    [0, 0, 0, 0, 0] @ replicate 25 0 @ [0, 0 :: rat]) ! (2 + 1) = 0 \<and>
   ([1, 0] @ [0, 0, 1, 0] @ [0, 1] @ [0, 0, 1, 0, 0] @ [0, 0, 0, 0, 0] @ [1, 0, 0, 1, 0] @
    [0, 0, 0, 0, 0] @ replicate 25 0 @ [0, 0 :: rat]) ! (2 + 2) = 1"
proof -
  have "NumPlayers standard_game = 2" by (simp add: standard_game_def)
  then show ?thesis by (simp add: hint_obs_encoding)
qed

text \<open>The reveal bitmask 9 has the bits 0 and 3, so the loop over the hand slots sets the
  entries 0 and 3 of its field.\<close>

lemma bit_nine: "bit (9 :: 8 word) n \<longleftrightarrow> n = 0 \<or> n = 3"
proof -
  have "n < 8 \<or> 8 \<le> n" by arith
  then show ?thesis
  proof
    assume "n < 8"
    then consider "n = 0" | "n = 1" | "n = 2" | "n = 3" | "n = 4" | "n = 5" | "n = 6" | "n = 7"
      by arith
    then show ?thesis by cases (simp_all add: bit_numeral_word_iff bit_iff_odd_drop_bit)
  next
    assume "8 \<le> n"
    then have "\<not> bit (9 :: 8 word) n" using bit_imp_le_length [of "9 :: 8 word" n] by auto
    with \<open>8 \<le> n\<close> show ?thesis by simp
  qed
qed

lemma forM_skip:
  assumes "\<And>x s. x \<in> set xs \<Longrightarrow> f x s = Inr s"
  shows "forM xs f s = Inr s"
  using assms by (induction xs) simp_all

lemma reveal_outcome_nine:
  assumes "4 \<le> hs" and "0 \<le> off" and "off + hs \<le> int (length e)"
  shows "forM (ints_below hs)
           (\<lambda>i enc. if bit (9 :: 8 word) (nat i) then vset enc (off + i) 1 else Inr enc) e =
         Inr (e[nat off := 1, nat off + 3 := (1 :: rat)])"
proof -
  let ?f = "\<lambda>i enc. if bit (9 :: 8 word) (nat i) then vset enc (off + i) (1 :: rat) else Inr enc"
  from assms(1) have "[0..<nat hs] = [0..<4] @ [4..<nat hs]"
    using upt_add_eq_append [of 0 4 "nat hs - 4"] by simp
  then have s: "ints_below hs = [0, 1, 2, 3] @ map int [4..<nat hs]"
    by (simp add: ints_below_def upt_rec numeral_eq_Suc)
  have skip: "forM (map int [4..<nat hs]) ?f e' = Inr e'" for e'
  proof (rule forM_skip)
    fix x and s :: "rat list"
    assume "x \<in> set (map int [4..<nat hs])"
    then have "4 \<le> nat x" by auto
    then have "\<not> bit (9 :: 8 word) (nat x)" unfolding bit_nine by simp
    then show "?f x s = Inr s" by (simp only: if_False)
  qed
  have b: "bit (9 :: 8 word) 0" "\<not> bit (9 :: 8 word) (Suc 0)"
    "\<not> bit (9 :: 8 word) 2" "bit (9 :: 8 word) 3"
    unfolding bit_nine by simp_all
  show ?thesis
    unfolding s forM_append
    using assms by (simp add: b skip vset_def in_bounds_def nat_add_distrib del: bit_numeral_word_iff)
qed

lemma update_field:
  assumes "n = length pre + i" and "i < length fld"
  shows "(pre @ fld @ post)[n := v] = pre @ fld[i := v] @ post"
  using assms by (simp add: list_update_append)

lemma update_fields:
  fixes A B C D E F G H I :: "rat list"
  assumes "length A = a" "length B = 4" "length C = a" "length D = d" "length E = e"
    and "1 < a" "2 < d" "3 < length F"
  shows "(A @ B @ C @ D @ E @ F @ G @ H @ I)
           [0 := 1, a + 2 := 1, a + 4 + 1 := 1, a + 4 + a + 2 := 1,
            a + 4 + a + d + e := 1, a + 4 + a + d + e + 3 := 1] =
         A[0 := 1] @ B[2 := 1] @ C[1 := 1] @ D[2 := 1] @ E @ F[0 := 1, 3 := 1] @ G @ H @ I"
proof -
  let ?A = "A[0 := 1]" and ?B = "B[2 := 1]" and ?C = "C[1 := 1]" and ?D = "D[2 := 1]"
  let ?R = "G @ H @ I"
  from assms have ne: "F \<noteq> []" by auto
  have "(A @ B @ C @ D @ E @ F @ ?R)[0 := 1] = ?A @ B @ C @ D @ E @ F @ ?R"
    using update_field [of 0 "[]" 0 A "B @ C @ D @ E @ F @ ?R" 1] assms by simp
  moreover have "(?A @ B @ C @ D @ E @ F @ ?R)[a + 2 := 1] = ?A @ ?B @ C @ D @ E @ F @ ?R"
    using update_field [of "a + 2" ?A 2 B "C @ D @ E @ F @ ?R" 1] assms by simp
  moreover have "(?A @ ?B @ C @ D @ E @ F @ ?R)[a + 4 + 1 := 1] =
                 ?A @ ?B @ ?C @ D @ E @ F @ ?R"
    using update_field [of "a + 4 + 1" "?A @ ?B" 1 C "D @ E @ F @ ?R" 1] assms by simp
  moreover have "(?A @ ?B @ ?C @ D @ E @ F @ ?R)[a + 4 + a + 2 := 1] =
                 ?A @ ?B @ ?C @ ?D @ E @ F @ ?R"
    using update_field [of "a + 4 + a + 2" "?A @ ?B @ ?C" 2 D "E @ F @ ?R" 1] assms by simp
  moreover have "(?A @ ?B @ ?C @ ?D @ E @ F @ ?R)[a + 4 + a + d + e := 1] =
                 ?A @ ?B @ ?C @ ?D @ E @ F[0 := 1] @ ?R"
    using update_field [of "a + 4 + a + d + e" "?A @ ?B @ ?C @ ?D @ E" 0 F ?R 1] assms ne by simp
  moreover have "(?A @ ?B @ ?C @ ?D @ E @ F[0 := 1] @ ?R)[a + 4 + a + d + e + 3 := 1] =
                 ?A @ ?B @ ?C @ ?D @ E @ F[0 := 1, 3 := 1] @ ?R"
    using update_field [of "a + 4 + a + d + e + 3" "?A @ ?B @ ?C @ ?D @ E" 3 "F[0 := 1]" ?R 1]
      assms by simp
  ultimately show ?thesis by (simp only:)
qed

lemma last_action_fields:
  assumes "2 \<le> np" "3 \<le> nc" "0 \<le> nr" "4 \<le> hs" "0 \<le> bpc"
  shows "(zeros (np + 4 + np + nc + nr + hs + hs + bpc + 2))
           [0 := 1, nat np + 2 := 1, nat np + 4 + 1 := 1, nat np + 4 + nat np + 2 := 1,
            nat np + 4 + nat np + nat nc + nat nr := 1,
            nat np + 4 + nat np + nat nc + nat nr + 3 := 1] =
         (zeros np)[0 := 1] @ [0, 0, 1, 0] @ (zeros np)[1 := 1] @ (zeros nc)[2 := 1] @
         zeros nr @ (zeros hs)[0 := 1, 3 := 1] @ zeros hs @ zeros bpc @ [0, 0]"
proof -
  have z: "zeros (np + 4 + np + nc + nr + hs + hs + bpc + 2) =
             zeros np @ [0, 0, 0, 0] @ zeros np @ zeros nc @ zeros nr @ zeros hs @ zeros hs @
             zeros bpc @ [0, 0]"
    unfolding zeros_def [of "np + 4 + np + nc + nr + hs + hs + bpc + 2"]
    by (rule sym, rule replicate_eqI) (use assms in \<open>auto simp: zeros_def\<close>)
  have u: "[0, 0, 0, 0 :: rat][2 := 1] = [0, 0, 1, 0]" by (simp add: numeral_2_eq_2)
  show ?thesis
    unfolding z
    by (subst update_fields [where a = "nat np" and d = "nat nc" and e = "nat nr"])
      (use assms in \<open>simp_all add: zeros_def u\<close>)
qed

lemma valid_standard_game: "valid_game standard_game"
  by code_simp

text \<open>
  C6, amended: in a valid game with at least 2 players, 3 colours and 4 hand slots, when
  the most recent move that is not a deal is a colour hint by player 0 with target
  offset 1, colour 2 and reveal bitmask 9 (slots 0 and 3), the section is, field by
  field: acting player 0, move type 2 of 0..3, target player 1, colour 2, no rank, reveal
  outcome slots 0 and 3, and zeros in the position, card and play-outcome fields.
\<close>

theorem last_action_reveal_color:
  assumes "valid_game g" and "2 \<le> NumPlayers g" and "3 \<le> NumColors g" and "4 \<le> HandSize g"
    and "GetLastNonDealMove (LastMoves obs) = Some item"
    and "move_Type (item_move item) = kRevealColor"
    and "item_player item = 0"
    and "move_TargetOffset (item_move item) = 1"
    and "move_Color (item_move item) = 2"
    and "item_reveal_bitmask item = 9"
  shows "EncodeLastAction g obs =
     Inr ((zeros (NumPlayers g))[0 := 1] @ [0, 0, 1, 0] @ (zeros (NumPlayers g))[1 := 1] @
          (zeros (NumColors g))[2 := 1] @ zeros (NumRanks g) @
          (zeros (HandSize g))[0 := 1, 3 := 1] @ zeros (HandSize g) @
          zeros (BitsPerCard g) @ [0, 0])"
proof -
  let ?np = "NumPlayers g" and ?nc = "NumColors g" and ?nr = "NumRanks g"
  let ?hs = "HandSize g" and ?b = "BitsPerCard g"
  let ?L = "LastActionSectionLength g"
  from assms(1) have nr: "0 \<le> ?nr" and b: "0 \<le> ?b"
    by (simp_all add: valid_game_def BitsPerCard_def)
  note dims = assms(2-4) nr b
  have L: "?L = ?np + 4 + ?np + ?nc + ?nr + ?hs + ?hs + ?b + 2"
    by (simp add: LastActionSectionLength_def)
  have len: "int (length (zeros ?L)) = ?L"
    using dims by (simp add: zeros_def L)
  have m: "1 smod ?np = 1" using assms(2) by (simp add: signed_modulo_int_def)
  have loop: "forM (ints_below ?hs)
                (\<lambda>i enc. if bit (9 :: 8 word) (nat i)
                          then vset enc (?np + 4 + ?np + ?nc + ?nr + i) 1 else Inr enc) e =
              Inr (e[nat (?np + 4 + ?np + ?nc + ?nr) := 1,
                     nat (?np + 4 + ?np + ?nc + ?nr) + 3 := 1])"
    if "int (length e) = ?L" for e :: "rat list"
    by (rule reveal_outcome_nine) (use dims that in \<open>simp_all add: L\<close>)
  let ?i2 = "0 + ?np + 2" and ?i3 = "0 + ?np + 4 + 1" and ?i4 = "0 + ?np + 4 + ?np + 2"
  let ?o5 = "0 + ?np + 4 + ?np + ?nc + ?nr"
  let ?E1 = "(zeros ?L)[nat (0 + 0) := 1]"
  let ?E2 = "?E1[nat ?i2 := 1]"
  let ?E3 = "?E2[nat ?i3 := 1]"
  let ?E4 = "?E3[nat ?i4 := 1]"
  let ?E6 = "?E4[nat ?o5 := 1, nat ?o5 + 3 := 1]"
  have ok: "vset xs k 1 = Inr (xs[nat k := 1])" if "0 \<le> k" "k < ?L" "int (length xs) = ?L"
    for xs :: "rat list" and k
    using that by (simp add: vset_def in_bounds_def)
  have s1: "vset (zeros ?L) (0 + 0) 1 = Inr ?E1"
    by (rule ok) (use dims len in \<open>simp_all add: L\<close>)
  have s2: "encode_move_type kRevealColor (0 + ?np) ?E1 = Inr ?E2"
    unfolding encode_move_type_def MoveType.case
    by (rule ok) (use dims len in \<open>simp_all add: L\<close>)
  have s3: "imod (0 + 1) ?np = Inr 1" "sint (word_of_int 1 :: 8 word) = 1"
    using assms(2) by (simp_all add: imod_def m)
  have s4: "vset ?E2 ?i3 1 = Inr ?E3"
    by (rule ok) (use dims len in \<open>simp_all add: L\<close>)
  have s5: "vset ?E3 ?i4 1 = Inr ?E4"
    by (rule ok) (use dims len in \<open>simp_all add: L\<close>)
  have s6: "forM (ints_below ?hs)
              (\<lambda>i enc. if bit (9 :: 8 word) (nat i) then vset enc (?o5 + i) 1 else Inr enc) ?E4 =
            Inr ?E6"
    by (rule reveal_outcome_nine) (use dims len in \<open>simp_all add: L\<close>)
  have r: "is_reveal kRevealColor" "\<not> is_play_or_discard kRevealColor"
    "kRevealColor \<noteq> kRevealRank" "kRevealColor \<noteq> kPlay"
    by (simp_all add: is_reveal_def is_play_or_discard_def)
  have "encode_last_move g item 0 (zeros ?L) =
          Inr (?E6, 0 + ?np + 4 + ?np + ?nc + ?nr + ?hs + ?hs + ?b + 2)"
    unfolding encode_last_move_def Let_def assms(6-10)
    by (simp only: r s1 s2 s3 s4 s5 s6 ebind_Inr if_True if_False HOL.simp_thms)
  moreover have "?E6 = (zeros ?L)[0 := 1, nat ?np + 2 := 1, nat ?np + 4 + 1 := 1,
                     nat ?np + 4 + nat ?np + 2 := 1,
                     nat ?np + 4 + nat ?np + nat ?nc + nat ?nr := 1,
                     nat ?np + 4 + nat ?np + nat ?nc + nat ?nr + 3 := 1]"
  proof -
    have i: "nat (0 + 0) = 0" "nat ?i2 = nat ?np + 2" "nat ?i3 = nat ?np + 4 + 1"
      "nat ?i4 = nat ?np + 4 + nat ?np + 2"
      "nat ?o5 = nat ?np + 4 + nat ?np + nat ?nc + nat ?nr"
      using dims by simp_all
    show ?thesis by (simp only: i)
  qed
  ultimately have e: "encode_last_move g item 0 (zeros ?L) =
             Inr ((zeros ?L)[0 := 1, nat ?np + 2 := 1, nat ?np + 4 + 1 := 1,
                     nat ?np + 4 + nat ?np + 2 := 1,
                     nat ?np + 4 + nat ?np + nat ?nc + nat ?nr := 1,
                     nat ?np + 4 + nat ?np + nat ?nc + nat ?nr + 3 := 1], ?L)"
    by (simp add: L)
  show ?thesis
    using e len assms(5)
    unfolding last_action_fields [OF assms(2,3) nr assms(4) b, folded L, symmetric]
    by (simp add: EncodeLastAction_def EncodeLastAction_impl_def check_def)
qed

theorem last_action_reveal_color_witness:
  "valid_game standard_game \<and> 2 \<le> NumPlayers standard_game \<and>
   3 \<le> NumColors standard_game \<and> 4 \<le> HandSize standard_game \<and>
   GetLastNonDealMove (LastMoves hint_obs) = Some hint_item \<and>
   move_Type (item_move hint_item) = kRevealColor \<and>
   item_player hint_item = 0 \<and>
   move_TargetOffset (item_move hint_item) = 1 \<and>
   move_Color (item_move hint_item) = 2 \<and>
   item_reveal_bitmask hint_item = 9 \<and>
   EncodeLastAction standard_game hint_obs =
     Inr ([1, 0] @ [0, 0, 1, 0] @ [0, 1] @ [0, 0, 1, 0, 0] @ [0, 0, 0, 0, 0] @ [1, 0, 0, 1, 0] @
          [0, 0, 0, 0, 0] @ replicate 25 0 @ [0, 0])"
proof -
  have d: "2 \<le> NumPlayers standard_game" "3 \<le> NumColors standard_game"
    "4 \<le> HandSize standard_game"
    by (simp_all add: standard_game_def)
  have a: "GetLastNonDealMove (LastMoves hint_obs) = Some hint_item"
    by (simp add: GetLastNonDealMove_def hint_obs_def deal_item_def hint_item_def)
  have b: "move_Type (item_move hint_item) = kRevealColor" "item_player hint_item = 0"
    "move_TargetOffset (item_move hint_item) = 1" "move_Color (item_move hint_item) = 2"
    "item_reveal_bitmask hint_item = 9"
    by (simp_all add: hint_item_def)
  have z: "(zeros (NumPlayers standard_game))[0 := 1] = [1, 0]"
    "(zeros (NumPlayers standard_game))[1 := 1] = [0, 1]"
    "(zeros (NumColors standard_game))[2 := 1] = [0, 0, 1, 0, 0]"
    "zeros (NumRanks standard_game) = [0, 0, 0, 0, 0]"
    "(zeros (HandSize standard_game))[0 := 1, 3 := 1] = [1, 0, 0, 1, 0]"
    "zeros (HandSize standard_game) = [0, 0, 0, 0, 0]"
    "zeros (BitsPerCard standard_game) = replicate 25 0"
    by (simp_all add: standard_game_def zeros_def BitsPerCard_def numeral_eq_Suc)
  from last_action_reveal_color [OF valid_standard_game d a b] valid_standard_game d a b
  show ?thesis unfolding z by simp
qed

subsection \<open>The own-hand summary\<close>

lemma shown_obs_encoding:
  "EncodeOwnHand small_game shown_obs = Inr [0, 1, 0, 1, 0, 0, 0, 0, 1, 0, 0, 0, 0, 0, 0]"
  by code_simp

text \<open>
  C7, as stated, fails on the order of the three states: a card below the firework of
  its colour (rank 0, firework 1) sets the second entry of its group, not the first.
\<close>

theorem own_hand_order_counterexample:
  "EncodeOwnHand small_game shown_obs = Inr [0, 1, 0, 1, 0, 0, 0, 0, 1, 0, 0, 0, 0, 0, 0] \<and>
   group_at [0, 1, 0, 1, 0, 0, 0, 0, 1, 0, 0, 0, 0, 0, 0] 0 \<noteq> claimed_own_hand_group 0 1 \<and>
   group_at [0, 1, 0, 1, 0, 0, 0, 0, 1, 0, 0, 0, 0, 0, 0] 0 = own_hand_group 0 1"
  by (simp add: shown_obs_encoding group_at_def claimed_own_hand_group_def own_hand_group_def)

lemma own_hand_card_step:
  assumes "own_hand_inv fws cards j t" and "own_hand_card g fws (cards ! j) t = Inr t'"
  shows "own_hand_inv fws cards (Suc j) t'"
proof -
  obtain e off where t: "t = (e, off)" by (cases t)
  let ?c = "cards ! j"
  let ?fw = "fws ! nat (card_Color ?c)"
  from assms(1) t have off: "off = 3 * int j" and len: "length e = 15"
    and old: "\<And>k. k < j \<Longrightarrow> in_bounds fws (card_Color (cards ! k)) \<and>
        group_at e k = own_hand_group (card_Rank (cards ! k)) (fws ! nat (card_Color (cards ! k)))"
    and zero: "\<And>i. 3 * j \<le> i \<Longrightarrow> i < 15 \<Longrightarrow> e ! i = 0"
    by (auto simp: own_hand_inv_def)
  define s :: nat where "s = (if card_Rank ?c = ?fw then 0 else if card_Rank ?c < ?fw then 1 else 2)"
  from assms(2) t have ib: "in_bounds fws (card_Color ?c)"
    and w: "vset e (off + int s) 1 = Inr (fst t')" and off': "snd t' = off + 3"
    by (auto simp: own_hand_card_def ebind_eq_Inr vget_eq_Inr s_def split: if_splits)
  from w have b: "in_bounds e (off + int s)" and e': "fst t' = e[nat (off + int s) := 1]"
    by (auto simp: vset_eq_Inr)
  have s2: "s \<le> 2" by (simp add: s_def)
  from b off len have j4: "3 * j + s < 15" by (simp add: in_bounds_def)
  have idx: "nat (off + int s) = 3 * j + s" using off by (simp add: nat_add_distrib nat_mult_distrib)
  have e'': "fst t' = e[3 * j + s := 1]" using e' idx by simp
  have grp: "own_hand_group (card_Rank ?c) ?fw =
               [if s = 0 then 1 else 0, if s = 1 then 1 else 0, if s = 2 then 1 else 0]"
    by (simp add: own_hand_group_def s_def)
  have z0: "e ! (3 * j) = 0" "e ! (3 * j + 1) = 0" "e ! (3 * j + 2) = 0"
  proof -
    have j5: "3 * j + 2 < 15" using j4 by arith
    show "e ! (3 * j) = 0" using j5 by (intro zero) simp_all
    show "e ! (3 * j + 1) = 0" using j5 by (intro zero) simp_all
    show "e ! (3 * j + 2) = 0" using j5 by (intro zero) simp_all
  qed
  have g: "group_at (fst t') j = own_hand_group (card_Rank ?c) ?fw"
    unfolding grp group_at_def e''
    using z0 j4 len s2 by (simp add: nth_list_update)
  have keep: "group_at (fst t') k = group_at e k" if "k < j" for k
    using that by (simp add: group_at_def e'' nth_list_update)
  have z': "fst t' ! i = 0" if "3 * Suc j \<le> i" "i < 15" for i
    using that zero [of i] s2 by (simp add: e'' nth_list_update)
  show ?thesis
    unfolding own_hand_inv_def
    using off off' len e'' g keep old z' ib
    by (cases t') (auto simp: less_Suc_eq)
qed

text \<open>
  C7, amended: when \<^verbatim>\<open>EncodeOwnHand\<close> returns, the vector has 15 entries; for every
  card of the observer's hand the three entries of its group hold exactly one 1, at the
  first entry when the rank equals the firework of the card's colour, at the second when
  it is below, at the third when it is above; the entries after the last card are 0.
\<close>

theorem own_hand_groups:
  assumes "EncodeOwnHand g obs = Inr enc"
  shows "length enc = 15 \<and> Hands obs \<noteq> [] \<and>
         (\<forall>k < length (Cards (hd (Hands obs))).
            in_bounds (Fireworks obs) (card_Color (Cards (hd (Hands obs)) ! k)) \<and>
            group_at enc k =
              own_hand_group (card_Rank (Cards (hd (Hands obs)) ! k))
                (Fireworks obs ! nat (card_Color (Cards (hd (Hands obs)) ! k)))) \<and>
         (\<forall>i. 3 * length (Cards (hd (Hands obs))) \<le> i \<and> i < 15 \<longrightarrow> enc ! i = 0)"
proof -
  from assms obtain off where
    r: "EncodeOwnHand_impl g obs 0 (zeros 15) = Inr (enc, off)"
    by (auto simp: EncodeOwnHand_def ebind_eq_Inr)
  then have ne: "Hands obs \<noteq> []"
    and l: "forM (Cards (hd (Hands obs))) (own_hand_card g (Fireworks obs)) (zeros 15, 0) = Inr (enc, off)"
    by (auto simp: EncodeOwnHand_impl_def ebind_eq_Inr vget_eq_Inr in_bounds_def hd_conv_nth)
  have "own_hand_inv (Fireworks obs) (Cards (hd (Hands obs))) (length (Cards (hd (Hands obs)))) (enc, off)"
  proof (rule forM_invariant_idx [OF l])
    show "own_hand_inv (Fireworks obs) (Cards (hd (Hands obs))) 0 (zeros 15, 0)"
      by (simp add: own_hand_inv_def zeros_def)
  next
    fix i t t'
    assume "own_hand_inv (Fireworks obs) (Cards (hd (Hands obs))) i t"
      and "own_hand_card g (Fireworks obs) (Cards (hd (Hands obs)) ! i) t = Inr t'"
    then show "own_hand_inv (Fireworks obs) (Cards (hd (Hands obs))) (Suc i) t'"
      by (rule own_hand_card_step)
  qed
  then show ?thesis using ne by (simp add: own_hand_inv_def)
qed

theorem own_hand_groups_witness:
  "EncodeOwnHand small_game shown_obs = Inr [0, 1, 0, 1, 0, 0, 0, 0, 1, 0, 0, 0, 0, 0, 0] \<and>
   length [0, 1, 0, 1, 0, 0, 0, 0, 1, 0, 0, 0, 0, 0, 0 :: rat] = 15 \<and>
   group_at [0, 1, 0, 1, 0, 0, 0, 0, 1, 0, 0, 0, 0, 0, 0] 0 = own_hand_group 0 1 \<and>
   group_at [0, 1, 0, 1, 0, 0, 0, 0, 1, 0, 0, 0, 0, 0, 0] 1 = own_hand_group 0 0 \<and>
   group_at [0, 1, 0, 1, 0, 0, 0, 0, 1, 0, 0, 0, 0, 0, 0] 2 = own_hand_group 1 0"
  using own_hand_groups [OF shown_obs_encoding] shown_obs_encoding
  by (simp add: shown_obs_def group_at_def own_hand_group_def)

subsection \<open>Write counts and section lengths\<close>

lemma in_bounds_nat: "in_bounds xs k \<Longrightarrow> nat k < length xs"
  by (auto simp: in_bounds_def)

lemma only_ones_refl [simp]: "only_ones e e"
  by (simp add: only_ones_def)

lemma only_ones_trans [trans]: "only_ones a b \<Longrightarrow> only_ones b c \<Longrightarrow> only_ones a c"
  unfolding only_ones_def by (metis)

lemma only_ones_length: "only_ones a b \<Longrightarrow> length b = length a"
  by (simp add: only_ones_def)

lemma only_ones_vset: "vset e k 1 = Inr e' \<Longrightarrow> only_ones e e'"
  by (auto simp: vset_eq_Inr only_ones_def nth_list_update in_bounds_def)

lemma forM_offset:
  assumes "forM xs f s = Inr s'"
    and "\<And>x t t'. x \<in> set xs \<Longrightarrow> f x t = Inr t' \<Longrightarrow> off t' = off t + (w x :: int)"
  shows "off s' = off s + sum_list (map w xs)"
  using assms
proof (induction xs arbitrary: s)
  case Nil
  then show ?case by simp
next
  case (Cons x xs)
  from Cons.prems(1) obtain t where t: "f x s = Inr t" "forM xs f t = Inr s'"
    by (auto simp: ebind_eq_Inr)
  have "off t = off s + w x" using Cons.prems(2) [of x s t] t(1) by simp
  moreover have "off s' = off t + sum_list (map w xs)"
    using Cons.IH [OF t(2)] Cons.prems(2) by simp
  ultimately show ?case by simp
qed

lemma forM_only_ones:
  assumes "forM xs f s = Inr s'"
    and "\<And>x t t'. x \<in> set xs \<Longrightarrow> f x t = Inr t' \<Longrightarrow> only_ones (buf t) (buf t')"
  shows "only_ones (buf s) (buf s')"
proof (rule forM_invariant [OF assms(1), where I = "\<lambda>t. only_ones (buf s) (buf t)"])
  show "only_ones (buf s) (buf s)" by simp
next
  fix x t t' assume "x \<in> set xs" "only_ones (buf s) (buf t)" "f x t = Inr t'"
  then show "only_ones (buf s) (buf t')"
    using assms(2) only_ones_trans by blast
qed

lemma sum_list_const: "sum_list (map (\<lambda>_. c) xs) = int (length xs) * (c::int)"
  by (induction xs) (simp_all add: algebra_simps)

lemma ebind_no_error:
  "m \<noteq> Inl e \<Longrightarrow> (\<And>x. m = Inr x \<Longrightarrow> f x \<noteq> Inl e) \<Longrightarrow> ebind m f \<noteq> Inl e"
  by (auto simp: ebind_eq_Inl)

lemma vset_not_sla [simp]: "vset xs k v \<noteq> Inl SectionLengthAssert"
  by (simp add: vset_eq_Inl)

lemma vget_not_sla [simp]: "vget xs k \<noteq> Inl SectionLengthAssert"
  by (simp add: vget_eq_Inl)

lemma idiv_not_sla [simp]: "idiv a b \<noteq> Inl SectionLengthAssert"
  by (simp add: idiv_def)

lemma imod_not_sla [simp]: "imod a b \<noteq> Inl SectionLengthAssert"
  by (simp add: imod_def)

lemma thermometer_only_ones: "thermometer n off e = Inr e' \<Longrightarrow> only_ones e e'"
  unfolding thermometer_def
  by (erule forM_only_ones [where buf = "\<lambda>e. e"]) (rule only_ones_vset)

lemma thermometer_not_sla [simp]: "thermometer n off e \<noteq> Inl SectionLengthAssert"
  unfolding thermometer_def by (rule forM_no_error) simp

subsection \<open>Hands\<close>

lemma encode_hand_card_step:
  assumes "encode_hand_card g sh p c (e, off, n) = Inr (e', off', n')"
  shows "only_ones e e' \<and> off' = off + BitsPerCard g \<and> n' = n + 1"
  using assms
  by (auto simp: encode_hand_card_def ebind_eq_Inr only_ones_vset split: if_splits)

lemma encode_hand_card_not_sla: "encode_hand_card g sh p c t \<noteq> Inl SectionLengthAssert"
  by (cases t) (auto simp: encode_hand_card_def ebind_eq_Inl)

lemma encode_hand_cards:
  assumes "forM cs (encode_hand_card g sh p) (e, off, n) = Inr (e', off', n')"
  shows "only_ones e e' \<and> off' = off + int (length cs) * BitsPerCard g \<and>
         n' = n + int (length cs)"
proof -
  have a: "only_ones (fst (e, off, n)) (fst (e', off', n'))"
    by (rule forM_only_ones [OF assms]) (auto dest: encode_hand_card_step)
  have b: "fst (snd (e', off', n')) =
             fst (snd (e, off, n)) + sum_list (map (\<lambda>_. BitsPerCard g) cs)"
    by (rule forM_offset [OF assms]) (auto dest: encode_hand_card_step)
  have c: "snd (snd (e', off', n')) = snd (snd (e, off, n)) + sum_list (map (\<lambda>_. 1) cs)"
    by (rule forM_offset [OF assms]) (auto dest: encode_hand_card_step)
  from a b c show ?thesis by (simp add: sum_list_const)
qed

lemma encode_hand_step:
  assumes "encode_hand g obs sh p (e, off) = Inr (e', off')" and "hands_fit g obs"
  shows "only_ones e e' \<and> off' = off + HandSize g * BitsPerCard g"
proof -
  from assms(1) obtain e1 off1 n1 where ib: "in_bounds (Hands obs) p"
    and l: "forM (Cards (Hands obs ! nat p)) (encode_hand_card g sh p) (e, off, 0) =
              Inr (e1, off1, n1)"
    and r: "e' = e1"
      "off' = (if n1 < HandSize g then off1 + (HandSize g - n1) * BitsPerCard g else off1)"
    by (auto simp: encode_hand_def ebind_eq_Inr vget_eq_Inr)
  from ib assms(2) have fit: "int (length (Cards (Hands obs ! nat p))) \<le> HandSize g"
  proof -
    from ib have "nat p < length (Hands obs)" by (rule in_bounds_nat)
    with assms(2) show ?thesis by (simp add: hands_fit_def list_all_length)
  qed
  from encode_hand_cards [OF l] fit r show ?thesis
    by (auto simp: algebra_simps)
qed

lemma encode_hand_not_sla: "encode_hand g obs sh p t \<noteq> Inl SectionLengthAssert"
proof -
  obtain e off where t: "t = (e, off)" by (cases t)
  have "forM cs (encode_hand_card g sh p) u \<noteq> Inl SectionLengthAssert" for cs u
    by (rule forM_no_error) (rule encode_hand_card_not_sla)
  then show ?thesis
    unfolding t encode_hand_def
    by (auto simp: ebind_eq_Inl)
qed

lemma encode_hand_missing_step:
  "encode_hand_missing g obs off p e = Inr e' \<Longrightarrow> only_ones e e'"
  by (auto simp: encode_hand_missing_def ebind_eq_Inr only_ones_vset split: if_splits)

lemma encode_hand_missing_not_sla:
  "encode_hand_missing g obs off p e \<noteq> Inl SectionLengthAssert"
  by (auto simp: encode_hand_missing_def ebind_eq_Inl)

lemma int_nat_length_ints_below: "0 \<le> n \<Longrightarrow> int (length (ints_below n)) = n"
  by simp

lemma hands_loop:
  assumes "forM (ints_below np) (encode_hand g obs sh) (e, off) = Inr (e', off')"
    and "hands_fit g obs" and "0 \<le> np"
  shows "only_ones e e' \<and> off' = off + np * (HandSize g * BitsPerCard g)"
proof -
  have a: "only_ones (fst (e, off)) (fst (e', off'))"
    by (rule forM_only_ones [OF assms(1)]) (auto dest: encode_hand_step [OF _ assms(2)])
  have b: "snd (e', off') =
             snd (e, off) + sum_list (map (\<lambda>_. HandSize g * BitsPerCard g) (ints_below np))"
    by (rule forM_offset [OF assms(1)]) (auto dest: encode_hand_step [OF _ assms(2)])
  from a b assms(3) show ?thesis by (simp add: sum_list_const)
qed

lemma EncodeHands_result:
  assumes "EncodeHands g obs start e sh = Inr (e', n)"
  shows "n = HandsSectionLength g"
  using assms by (auto simp: EncodeHands_def Let_def ebind_eq_Inr)

lemma EncodeHands_only_ones:
  assumes "EncodeHands g obs start e sh = Inr (e', n)" and "hands_fit g obs"
    and "0 \<le> NumPlayers g"
  shows "only_ones e e'"
proof -
  from assms(1) obtain e1 off1 where
    l1: "forM (ints_below (NumPlayers g)) (encode_hand g obs sh) (e, start) = Inr (e1, off1)"
    and l2: "forM (ints_below (NumPlayers g)) (encode_hand_missing g obs off1) e1 = Inr e'"
    by (auto simp: EncodeHands_def Let_def ebind_eq_Inr)
  have "only_ones e e1" using hands_loop [OF l1 assms(2,3)] by simp
  moreover have "only_ones e1 e'"
    by (rule forM_only_ones [OF l2, where buf = "\<lambda>e. e"]) (rule encode_hand_missing_step)
  ultimately show ?thesis by (rule only_ones_trans)
qed

lemma EncodeHands_not_sla:
  assumes "hands_fit g obs" and "0 \<le> NumPlayers g"
  shows "EncodeHands g obs start e sh \<noteq> Inl SectionLengthAssert"
proof
  assume f: "EncodeHands g obs start e sh = Inl SectionLengthAssert"
  have n1: "forM (ints_below (NumPlayers g)) (encode_hand g obs sh) (e, start) \<noteq>
              Inl SectionLengthAssert"
    by (rule forM_no_error) (rule encode_hand_not_sla)
  have n2: "forM (ints_below (NumPlayers g)) (encode_hand_missing g obs off1) e1 \<noteq>
              Inl SectionLengthAssert" for off1 e1
    by (rule forM_no_error) (rule encode_hand_missing_not_sla)
  from f n1 n2 obtain e1 off1 where
    l1: "forM (ints_below (NumPlayers g)) (encode_hand g obs sh) (e, start) = Inr (e1, off1)"
    and bad: "off1 + NumPlayers g - start \<noteq> HandsSectionLength g"
    by (auto simp: EncodeHands_def Let_def ebind_eq_Inl)
  from hands_loop [OF l1 assms] bad show False
    by (simp add: HandsSectionLength_def algebra_simps)
qed

subsection \<open>Board\<close>

lemma encode_firework_step:
  "encode_firework g fws c (e, off) = Inr (e', off') \<Longrightarrow>
     only_ones e e' \<and> off' = off + NumRanks g"
  by (auto simp: encode_firework_def ebind_eq_Inr only_ones_vset split: if_splits)

lemma encode_firework_not_sla: "encode_firework g fws c t \<noteq> Inl SectionLengthAssert"
  by (cases t) (auto simp: encode_firework_def ebind_eq_Inl)

lemma fireworks_loop:
  assumes "forM (ints_below nc) (encode_firework g fws) (e, off) = Inr (e', off')"
    and "0 \<le> nc"
  shows "only_ones e e' \<and> off' = off + nc * NumRanks g"
proof -
  have a: "only_ones (fst (e, off)) (fst (e', off'))"
    by (rule forM_only_ones [OF assms(1)]) (auto dest: encode_firework_step)
  have b: "snd (e', off') = snd (e, off) + sum_list (map (\<lambda>_. NumRanks g) (ints_below nc))"
    by (rule forM_offset [OF assms(1)]) (auto dest: encode_firework_step)
  from a b assms(2) show ?thesis by (simp add: sum_list_const)
qed

lemma EncodeBoard_result:
  assumes "EncodeBoard g obs start e = Inr (e', n)"
  shows "n = BoardSectionLength g"
  using assms by (auto simp: EncodeBoard_def Let_def ebind_eq_Inr)

lemma EncodeBoard_only_ones:
  assumes "EncodeBoard g obs start e = Inr (e', n)" and "0 \<le> NumColors g"
  shows "only_ones e e'"
proof -
  from assms(1) obtain e1 e2 off2 e3 where
    t1: "thermometer (DeckSize obs) start e = Inr e1"
    and l: "forM (ints_below (NumColors g)) (encode_firework g (Fireworks obs))
              (e1, start + (MaxDeckSize g - HandSize g * NumPlayers g)) = Inr (e2, off2)"
    and t2: "thermometer (InformationTokens obs) off2 e2 = Inr e3"
    and t3: "thermometer (LifeTokens obs) (off2 + MaxInformationTokens g) e3 = Inr e'"
    by (auto simp: EncodeBoard_def Let_def ebind_eq_Inr)
  have "only_ones e e1" using t1 by (rule thermometer_only_ones)
  also have "only_ones e1 e2" using fireworks_loop [OF l assms(2)] by simp
  also have "only_ones e2 e3" using t2 by (rule thermometer_only_ones)
  also have "only_ones e3 e'" using t3 by (rule thermometer_only_ones)
  finally show ?thesis .
qed

lemma EncodeBoard_not_sla:
  assumes "0 \<le> NumColors g"
  shows "EncodeBoard g obs start e \<noteq> Inl SectionLengthAssert"
proof
  assume f: "EncodeBoard g obs start e = Inl SectionLengthAssert"
  have n1: "forM (ints_below (NumColors g)) (encode_firework g (Fireworks obs)) t \<noteq>
              Inl SectionLengthAssert" for t
    by (rule forM_no_error) (rule encode_firework_not_sla)
  from f n1 obtain e1 e2 off2 where
    l: "forM (ints_below (NumColors g)) (encode_firework g (Fireworks obs))
          (e1, start + (MaxDeckSize g - HandSize g * NumPlayers g)) = Inr (e2, off2)"
    and bad: "off2 + MaxInformationTokens g + MaxLifeTokens g - start \<noteq> BoardSectionLength g"
    by (auto simp: EncodeBoard_def Let_def ebind_eq_Inl)
  from fireworks_loop [OF l assms] bad show False
    by (simp add: BoardSectionLength_def algebra_simps)
qed

subsection \<open>Discards\<close>

lemma count_discard_not_sla: "count_discard nr c dc \<noteq> Inl SectionLengthAssert"
  by (auto simp: count_discard_def Let_def ebind_eq_Inl)

lemma encode_discard_field_step:
  "encode_discard_field g dc c r (e, off) = Inr (e', off') \<Longrightarrow>
     only_ones e e' \<and> off' = off + NumberCardInstances g c r"
  by (auto simp: encode_discard_field_def ebind_eq_Inr thermometer_only_ones)

lemma encode_discard_field_not_sla:
  "encode_discard_field g dc c r t \<noteq> Inl SectionLengthAssert"
  by (cases t) (auto simp: encode_discard_field_def ebind_eq_Inl)

lemma discard_row:
  assumes "forM (ints_below nr) (encode_discard_field g dc c) (e, off) = Inr (e', off')"
  shows "only_ones e e' \<and>
         off' = off + sum_list (map (\<lambda>r. NumberCardInstances g c r) (ints_below nr))"
proof -
  have a: "only_ones (fst (e, off)) (fst (e', off'))"
    by (rule forM_only_ones [OF assms]) (auto dest: encode_discard_field_step)
  have b: "snd (e', off') =
             snd (e, off) + sum_list (map (\<lambda>r. NumberCardInstances g c r) (ints_below nr))"
    by (rule forM_offset [OF assms]) (auto dest: encode_discard_field_step)
  from a b show ?thesis by simp
qed

lemma discard_rows:
  assumes "forM (ints_below (NumColors g))
             (\<lambda>c. forM (ints_below (NumRanks g)) (encode_discard_field g dc c)) (e, off) =
           Inr (e', off')"
  shows "only_ones e e' \<and> off' = off + deck_total g"
proof -
  have a: "only_ones (fst (e, off)) (fst (e', off'))"
    by (rule forM_only_ones [OF assms]) (auto dest: discard_row)
  have b: "snd (e', off') =
             snd (e, off) +
             sum_list (map (\<lambda>c. sum_list (map (\<lambda>r. NumberCardInstances g c r)
               (ints_below (NumRanks g)))) (ints_below (NumColors g)))"
    by (rule forM_offset [OF assms]) (auto dest: discard_row)
  from a b show ?thesis by (simp add: deck_total_def)
qed

lemma EncodeDiscards_result:
  assumes "EncodeDiscards g obs start e = Inr (e', n)"
  shows "n = DiscardSectionLength g \<and> only_ones e e'"
  using assms by (auto simp: EncodeDiscards_def Let_def ebind_eq_Inr dest: discard_rows)

lemma EncodeDiscards_not_sla:
  assumes "MaxDeckSize g = deck_total g"
  shows "EncodeDiscards g obs start e \<noteq> Inl SectionLengthAssert"
proof
  assume f: "EncodeDiscards g obs start e = Inl SectionLengthAssert"
  have n1: "forM (DiscardPile obs) (count_discard (NumRanks g)) dc \<noteq> Inl SectionLengthAssert"
    for dc
    by (rule forM_no_error) (rule count_discard_not_sla)
  have n2: "forM (ints_below (NumColors g))
              (\<lambda>c. forM (ints_below (NumRanks g)) (encode_discard_field g dc c)) t \<noteq>
            Inl SectionLengthAssert" for dc t
    by (intro forM_no_error) (rule encode_discard_field_not_sla)
  from f n1 n2 obtain dc e1 off1 where
    l: "forM (ints_below (NumColors g))
          (\<lambda>c. forM (ints_below (NumRanks g)) (encode_discard_field g dc c)) (e, start) =
        Inr (e1, off1)"
    and bad: "off1 - start \<noteq> DiscardSectionLength g"
    by (auto simp: EncodeDiscards_def Let_def ebind_eq_Inl)
  from discard_rows [OF l] bad assms show False
    by (simp add: DiscardSectionLength_def)
qed

subsection \<open>Card knowledge\<close>

lemma encode_plausible_only_ones:
  assumes "encode_plausible g ck off e = Inr e'"
  shows "only_ones e e'"
proof (rule forM_only_ones [OF assms [unfolded encode_plausible_def], where buf = "\<lambda>e. e"])
  fix x and t t' :: "rat list"
  assume a: "(if ColorPlausible ck x
        then forM (ints_below (NumRanks g))
               (\<lambda>rank enc'. if RankPlausible ck rank
                   then vset enc' (off + CardIndex x rank (NumRanks g)) 1 else Inr enc') t
        else Inr t) = Inr t'"
  show "only_ones t t'"
  proof (cases "ColorPlausible ck x")
    case True
    with a have "forM (ints_below (NumRanks g))
               (\<lambda>rank enc'. if RankPlausible ck rank
                   then vset enc' (off + CardIndex x rank (NumRanks g)) 1 else Inr enc') t = Inr t'"
      by simp
    then show ?thesis
      by (rule forM_only_ones [where buf = "\<lambda>e. e"])
        (auto simp: only_ones_vset split: if_splits)
  next
    case False
    with a show ?thesis by simp
  qed
qed

lemma encode_plausible_not_sla: "encode_plausible g ck off e \<noteq> Inl SectionLengthAssert"
proof -
  have "forM (ints_below (NumRanks g))
          (\<lambda>rank enc'. if RankPlausible ck rank
                then vset enc' (off + CardIndex c rank (NumRanks g)) 1 else Inr enc') t \<noteq>
        Inl SectionLengthAssert" for c and t :: "rat list"
    by (rule forM_no_error) simp
  then show ?thesis
    unfolding encode_plausible_def by (intro forM_no_error) simp
qed


lemma encode_knowledge_step:
  assumes "encode_knowledge g ck (e, off, n) = Inr (e', off', n')"
  shows "only_ones e e' \<and> off' = off + SectorLength g \<and> n' = n + 1"
proof -
  from assms obtain e1 e2 where
    p: "encode_plausible g ck off e = Inr e1"
    and c: "(if ColorHinted ck then vset e1 (off + BitsPerCard g + ck_Color ck) 1 else Inr e1) =
              Inr e2"
    and r: "(if RankHinted ck
             then vset e2 (off + BitsPerCard g + NumColors g + ck_Rank ck) 1 else Inr e2) =
              Inr e'"
    and o: "off' = off + BitsPerCard g + NumColors g + NumRanks g" "n' = n + 1"
    by (auto simp: encode_knowledge_def Let_def ebind_eq_Inr)
  have "only_ones e e1" using p by (rule encode_plausible_only_ones)
  also have "only_ones e1 e2" using c by (auto simp: only_ones_vset split: if_splits)
  also have "only_ones e2 e'" using r by (auto simp: only_ones_vset split: if_splits)
  finally show ?thesis using o by (simp add: SectorLength_def)
qed

lemma encode_knowledge_not_sla: "encode_knowledge g ck t \<noteq> Inl SectionLengthAssert"
  by (cases t)
    (auto simp: encode_knowledge_def Let_def ebind_eq_Inl encode_plausible_not_sla)

lemma encode_knowledge_list:
  assumes "forM ks (encode_knowledge g) (e, off, n) = Inr (e', off', n')"
  shows "only_ones e e' \<and> off' = off + int (length ks) * SectorLength g \<and>
         n' = n + int (length ks)"
proof -
  have a: "only_ones (fst (e, off, n)) (fst (e', off', n'))"
    by (rule forM_only_ones [OF assms]) (auto dest: encode_knowledge_step)
  have b: "fst (snd (e', off', n')) =
             fst (snd (e, off, n)) + sum_list (map (\<lambda>_. SectorLength g) ks)"
    by (rule forM_offset [OF assms]) (auto dest: encode_knowledge_step)
  have c: "snd (snd (e', off', n')) = snd (snd (e, off, n)) + sum_list (map (\<lambda>_. 1) ks)"
    by (rule forM_offset [OF assms]) (auto dest: encode_knowledge_step)
  from a b c show ?thesis by (simp add: sum_list_const)
qed

lemma encode_hand_knowledge_only_ones:
  assumes "encode_hand_knowledge g obs p (e, off) = Inr (e', off')"
  shows "only_ones e e'"
  using assms
  by (auto simp: encode_hand_knowledge_def ebind_eq_Inr dest: encode_knowledge_list)

lemma encode_hand_knowledge_step:
  assumes "encode_hand_knowledge g obs p (e, off) = Inr (e', off')" and "hands_fit g obs"
  shows "off' = off + HandSize g * SectorLength g"
proof -
  from assms(1) obtain e1 off1 n1 where ib: "in_bounds (Hands obs) p"
    and l: "forM (Knowledge (Hands obs ! nat p)) (encode_knowledge g) (e, off, 0) =
              Inr (e1, off1, n1)"
    and r: "off' = (if n1 < HandSize g
                    then off1 + (HandSize g - n1) *
                           (BitsPerCard g + NumColors g + NumRanks g)
                    else off1)"
    by (auto simp: encode_hand_knowledge_def ebind_eq_Inr vget_eq_Inr)
  have fit: "int (length (Knowledge (Hands obs ! nat p))) \<le> HandSize g"
  proof -
    from ib have "nat p < length (Hands obs)" by (rule in_bounds_nat)
    with assms(2) show ?thesis by (simp add: hands_fit_def list_all_length)
  qed
  from encode_knowledge_list [OF l] fit r show ?thesis
    by (auto simp: algebra_simps SectorLength_def)
qed

lemma encode_hand_knowledge_not_sla:
  "encode_hand_knowledge g obs p t \<noteq> Inl SectionLengthAssert"
proof -
  obtain e off where t: "t = (e, off)" by (cases t)
  have "forM ks (encode_knowledge g) u \<noteq> Inl SectionLengthAssert" for ks u
    by (rule forM_no_error) (rule encode_knowledge_not_sla)
  then show ?thesis
    unfolding t encode_hand_knowledge_def
    by (auto simp: ebind_eq_Inl)
qed

lemma knowledge_loop:
  assumes "forM (ints_below np) (encode_hand_knowledge g obs) (e, off) = Inr (e', off')"
  shows "only_ones e e'"
    and "hands_fit g obs \<Longrightarrow> 0 \<le> np \<Longrightarrow> off' = off + np * (HandSize g * SectorLength g)"
proof -
  have "only_ones (fst (e, off)) (fst (e', off'))"
    by (rule forM_only_ones [OF assms]) (auto dest: encode_hand_knowledge_only_ones)
  then show "only_ones e e'" by simp
next
  assume h: "hands_fit g obs" "0 \<le> np"
  have "snd (e', off') =
          snd (e, off) + sum_list (map (\<lambda>_. HandSize g * SectorLength g) (ints_below np))"
    by (rule forM_offset [OF assms]) (auto dest: encode_hand_knowledge_step [OF _ h(1)])
  then show "off' = off + np * (HandSize g * SectorLength g)"
    using h(2) by (simp add: sum_list_const)
qed

lemma EncodeCardKnowledge_result:
  assumes "EncodeCardKnowledge g obs start e = Inr (e', n)"
  shows "n = CardKnowledgeSectionLength g \<and> only_ones e e' \<and>
         int (length (Hands obs)) = NumPlayers g"
  using assms
  by (auto simp: EncodeCardKnowledge_def ebind_eq_Inr dest: knowledge_loop(1))

lemma EncodeCardKnowledge_not_sla:
  assumes "hands_fit g obs" and "0 \<le> NumPlayers g"
  shows "EncodeCardKnowledge g obs start e \<noteq> Inl SectionLengthAssert"
proof
  assume f: "EncodeCardKnowledge g obs start e = Inl SectionLengthAssert"
  have n1: "forM (ints_below (NumPlayers g)) (encode_hand_knowledge g obs) (e, start) \<noteq>
              Inl SectionLengthAssert"
    by (rule forM_no_error) (rule encode_hand_knowledge_not_sla)
  from f n1 obtain e1 off1 where
    l: "forM (ints_below (NumPlayers g)) (encode_hand_knowledge g obs) (e, start) = Inr (e1, off1)"
    and bad: "off1 - start \<noteq> CardKnowledgeSectionLength g"
    by (auto simp: EncodeCardKnowledge_def ebind_eq_Inl)
  from knowledge_loop(2) [OF l assms] bad show False
    by (simp add: CardKnowledgeSectionLength_def SectorLength_def algebra_simps)
qed

subsection \<open>Last action\<close>

lemma encode_move_type_only_ones: "encode_move_type t off e = Inr e' \<Longrightarrow> only_ones e e'"
  by (cases t) (auto simp: encode_move_type_def only_ones_vset)

lemma encode_move_type_not_sla: "encode_move_type t off e \<noteq> Inl SectionLengthAssert"
  by (cases t) (auto simp: encode_move_type_def)

lemma reveal_outcome_only_ones:
  assumes "forM (ints_below n) (\<lambda>i enc. if bit (m :: 8 word) (nat i)
             then vset enc (off + i) 1 else Inr enc) e = Inr e'"
  shows "only_ones e e'"
  by (rule forM_only_ones [OF assms, where buf = "\<lambda>e. e"])
    (auto simp: only_ones_vset split: if_splits)

lemma reveal_outcome_not_sla:
  "forM (ints_below n) (\<lambda>i enc. if bit (m :: 8 word) (nat i)
      then vset enc (off + i) 1 else Inr enc) (e :: rat list) \<noteq> Inl SectionLengthAssert"
  by (rule forM_no_error) simp

lemma encode_last_move_result:
  assumes "encode_last_move g item off e = Inr (e', off')"
  shows "only_ones e e' \<and> off' = off + LastActionSectionLength g"
proof -
  let ?t = "move_Type (item_move item)"
  from assms obtain e1 e2 e3 e4 e5 e6 e7 e8 where
    s1: "vset e (off + item_player item) 1 = Inr e1"
    and s2: "encode_move_type ?t (off + NumPlayers g) e1 = Inr e2"
    and s3: "(if is_reveal ?t
              then ebind (imod (item_player item + move_TargetOffset (item_move item))
                     (NumPlayers g)) (\<lambda>m.
                   vset e2 (off + NumPlayers g + 4 + sint (word_of_int m :: 8 word)) 1)
              else Inr e2) = Inr e3"
    and s4: "(if ?t = kRevealColor
              then vset e3 (off + NumPlayers g + 4 + NumPlayers g + move_Color (item_move item)) 1
              else Inr e3) = Inr e4"
    and s5: "(if ?t = kRevealRank
              then vset e4 (off + NumPlayers g + 4 + NumPlayers g + NumColors g +
                     move_Rank (item_move item)) 1
              else Inr e4) = Inr e5"
    and s6: "(if is_reveal ?t
              then forM (ints_below (HandSize g))
                     (\<lambda>i enc. if bit (item_reveal_bitmask item) (nat i)
                        then vset enc (off + NumPlayers g + 4 + NumPlayers g + NumColors g +
                               NumRanks g + i) 1
                        else Inr enc) e5
              else Inr e5) = Inr e6"
    and s7: "(if is_play_or_discard ?t
              then vset e6 (off + NumPlayers g + 4 + NumPlayers g + NumColors g + NumRanks g +
                     HandSize g + move_CardIndex (item_move item)) 1
              else Inr e6) = Inr e7"
    and s8: "(if is_play_or_discard ?t
              then ebind (check (item_color item \<ge> 0) AssertFailed) (\<lambda>_.
                   ebind (check (item_rank item \<ge> 0) AssertFailed) (\<lambda>_.
                   vset e7 (off + NumPlayers g + 4 + NumPlayers g + NumColors g + NumRanks g +
                     HandSize g + HandSize g +
                     CardIndex (item_color item) (item_rank item) (NumRanks g)) 1))
              else Inr e7) = Inr e8"
    and s9: "(if ?t = kPlay
              then ebind (if item_scored item
                     then vset e8 (off + NumPlayers g + 4 + NumPlayers g + NumColors g +
                            NumRanks g + HandSize g + HandSize g + BitsPerCard g) 1
                     else Inr e8)
                   (\<lambda>enc. if item_information_token item
                      then vset enc (off + NumPlayers g + 4 + NumPlayers g + NumColors g +
                             NumRanks g + HandSize g + HandSize g + BitsPerCard g + 1) 1
                      else Inr enc)
              else Inr e8) = Inr e'"
    and o: "off' = off + NumPlayers g + 4 + NumPlayers g + NumColors g + NumRanks g +
              HandSize g + HandSize g + BitsPerCard g + 2"
    unfolding encode_last_move_def Let_def ebind_eq_Inr by auto
  have "only_ones e e1" using s1 by (rule only_ones_vset)
  also have "only_ones e1 e2" using s2 by (rule encode_move_type_only_ones)
  also have "only_ones e2 e3"
    using s3 by (auto simp: ebind_eq_Inr only_ones_vset split: if_splits)
  also have "only_ones e3 e4" using s4 by (auto simp: only_ones_vset split: if_splits)
  also have "only_ones e4 e5" using s5 by (auto simp: only_ones_vset split: if_splits)
  also have "only_ones e5 e6"
    using s6 by (auto dest: reveal_outcome_only_ones split: if_splits)
  also have "only_ones e6 e7" using s7 by (auto simp: only_ones_vset split: if_splits)
  also have "only_ones e7 e8"
    using s8 by (auto simp: ebind_eq_Inr only_ones_vset split: if_splits)
  also have "only_ones e8 e'"
    using s9 by (auto simp: ebind_eq_Inr split: if_splits
        intro: only_ones_vset only_ones_trans [OF only_ones_vset only_ones_vset])
  finally show ?thesis using o by (simp add: LastActionSectionLength_def)
qed

lemma encode_last_move_not_sla: "encode_last_move g item off e \<noteq> Inl SectionLengthAssert"
  unfolding encode_last_move_def Let_def
  by (intro ebind_no_error)
    (auto simp: encode_move_type_not_sla reveal_outcome_not_sla ebind_eq_Inl)

lemma EncodeLastAction_impl_result:
  assumes "EncodeLastAction_impl g obs start e = Inr (e', n)"
  shows "n = LastActionSectionLength g \<and> only_ones e e'"
  using assms
  by (auto simp: EncodeLastAction_impl_def ebind_eq_Inr
      dest: encode_last_move_result split: option.splits)

lemma EncodeLastAction_impl_not_sla:
  "EncodeLastAction_impl g obs start e \<noteq> Inl SectionLengthAssert"
proof
  assume f: "EncodeLastAction_impl g obs start e = Inl SectionLengthAssert"
  show False
  proof (cases "GetLastNonDealMove (LastMoves obs)")
    case None
    with f show False by (simp add: EncodeLastAction_impl_def)
  next
    case (Some item)
    with f encode_last_move_not_sla [of g item start e] obtain e1 off1 where
      "encode_last_move g item start e = Inr (e1, off1)"
      "off1 - start \<noteq> LastActionSectionLength g"
      by (auto simp: EncodeLastAction_impl_def ebind_eq_Inl)
    then show False using encode_last_move_result by fastforce
  qed
qed

subsection \<open>Card counts and belief\<close>

lemma remove_card_not_sla: "remove_card k t \<noteq> Inl SectionLengthAssert"
  by (cases t) (auto simp: remove_card_def ebind_eq_Inl)

lemma ComputeCardCount_not_sla: "ComputeCardCount g obs \<noteq> Inl SectionLengthAssert"
proof -
  have a: "forM (ints_below (NumColors g))
             (\<lambda>color. forM (ints_below (NumRanks g)) (count_full_deck g color)) t \<noteq>
           Inl SectionLengthAssert" for t
    by (intro forM_no_error) (auto simp: count_full_deck_def Let_def ebind_eq_Inl)
  have b: "forM (DiscardPile obs)
             (\<lambda>crd. remove_card (card_Color crd * NumRanks g + card_Rank crd)) t \<noteq>
           Inl SectionLengthAssert" for t
    by (rule forM_no_error) (rule remove_card_not_sla)
  have c: "forM (ints_below (NumColors g)) (remove_fireworks g (Fireworks obs)) t \<noteq>
           Inl SectionLengthAssert" for t
  proof (rule forM_no_error)
    fix x u
    have "forM (ints_below fw) (\<lambda>rank. remove_card (x * NumRanks g + rank)) u \<noteq>
            Inl SectionLengthAssert" for fw
      by (rule forM_no_error) (rule remove_card_not_sla)
    then show "remove_fireworks g (Fireworks obs) x u \<noteq> Inl SectionLengthAssert"
      by (auto simp: remove_fireworks_def ebind_eq_Inl)
  qed
  show ?thesis
    unfolding ComputeCardCount_def Let_def
    using a b c by (auto simp: ebind_eq_Inl)
qed

lemma for_each_slot_invariant:
  assumes "for_each_slot obs np body s = Inr s'" and "I s"
    and "\<And>p k t t'. I t \<Longrightarrow> body p k t = Inr t' \<Longrightarrow> I t'"
  shows "I s'"
proof (rule forM_invariant [where I = I, OF assms(1) [unfolded for_each_slot_def] assms(2)])
  fix x t t'
  assume "I t"
    and "ebind (vget (Hands obs) x)
           (\<lambda>hand. let num_cards = int (length (Cards hand))
                    in forM (ints_below num_cards) (body x) t) = Inr t'"
  then obtain hand :: HanabiHand
    where "forM (ints_below (int (length (Cards hand)))) (body x) t = Inr t'"
    by (auto simp: ebind_eq_Inr)
  then show "I t'"
    using \<open>I t\<close> assms(3) by (rule forM_invariant)
qed

lemma for_each_slot_no_error:
  assumes "\<And>p k t. body p k t \<noteq> Inl e" and "e \<noteq> OutOfRange"
  shows "for_each_slot obs np body s \<noteq> Inl e"
  unfolding for_each_slot_def
proof (rule forM_no_error)
  fix x t
  have "forM ks (body x) t \<noteq> Inl e" for ks
    by (rule forM_no_error) (rule assms(1))
  then show "ebind (vget (Hands obs) x)
           (\<lambda>hand. let num_cards = int (length (Cards hand))
                    in forM (ints_below num_cards) (body x) t) \<noteq> Inl e"
    using assms(2) by (auto simp: ebind_eq_Inl vget_eq_Inl)
qed

lemma v0_weigh_length:
  "v0_weigh cc start len base i (e, tot) = Inr (e', tot') \<Longrightarrow> length e' = length e"
  by (auto simp: v0_weigh_def Let_def ebind_eq_Inr vset_eq_Inr)

lemma normalize_at_length: "normalize_at tot base i e = Inr e' \<Longrightarrow> length e' = length e"
  by (auto simp: normalize_at_def Let_def ebind_eq_Inr vset_eq_Inr)

lemma v0_slot_length:
  assumes "v0_slot n cc start len base e = Inr e'"
  shows "length e' = length e"
proof -
  from assms obtain e1 tot where
    a: "forM (ints_below n) (v0_weigh cc start len base) (e, 0) = Inr (e1, tot)"
    and b: "forM (ints_below n) (normalize_at tot base) e1 = Inr e'"
    by (auto simp: v0_slot_def ebind_eq_Inr)
  have "length (fst (e1, tot)) = length e"
    by (rule forM_invariant [OF a, where I = "\<lambda>t. length (fst t) = length e"])
      (auto dest: v0_weigh_length)
  moreover have "length e' = length e1"
    by (rule forM_invariant [OF b, where I = "\<lambda>t. length t = length e1"])
      (auto dest: normalize_at_length)
  ultimately show ?thesis by simp
qed

lemma v0_slot_not_sla: "v0_slot n cc start len base e \<noteq> Inl SectionLengthAssert"
proof -
  have a: "forM (ints_below n) (v0_weigh cc start len base) t \<noteq> Inl SectionLengthAssert" for t
    by (rule forM_no_error) (auto simp: v0_weigh_def Let_def ebind_eq_Inl)
  have b: "forM (ints_below n) (normalize_at tot base) t \<noteq> Inl SectionLengthAssert" for tot t
    by (rule forM_no_error) (auto simp: normalize_at_def Let_def ebind_eq_Inl)
  show ?thesis
    unfolding v0_slot_def using a b by (auto simp: ebind_eq_Inl)
qed

lemma sdiv_nonneg: "0 \<le> k \<Longrightarrow> 0 < l \<Longrightarrow> k sdiv l = k div (l :: int)"
  by (cases "k = 0") (simp_all add: signed_divide_int_def)

lemma SectorLength_pos: "valid_game g \<Longrightarrow> 0 < SectorLength g"
  by (simp add: valid_game_def SectorLength_def BitsPerCard_def add_pos_pos)

lemma section_offsets:
  assumes "valid_game g"
  shows "idiv (CardKnowledgeSectionLength g) (NumPlayers g) =
           Inr (HandSize g * SectorLength g)"
    and "idiv (CardKnowledgeSectionLength g) (HandSize g) =
           Inr (NumPlayers g * SectorLength g)"
    and "idiv (NumPlayers g * SectorLength g) (NumPlayers g) = Inr (SectorLength g)"
proof -
  from assms have p: "0 < NumPlayers g" "0 < HandSize g" by (simp_all add: valid_game_def)
  have s: "0 < SectorLength g" using assms by (rule SectorLength_pos)
  have l: "CardKnowledgeSectionLength g = NumPlayers g * (HandSize g * SectorLength g)"
    "CardKnowledgeSectionLength g = HandSize g * (NumPlayers g * SectorLength g)"
    by (simp_all add: CardKnowledgeSectionLength_def SectorLength_def)
  have n: "0 \<le> NumPlayers g * (HandSize g * SectorLength g)"
    "0 \<le> HandSize g * (NumPlayers g * SectorLength g)" "0 \<le> NumPlayers g * SectorLength g"
    using p s by simp_all
  show "idiv (CardKnowledgeSectionLength g) (NumPlayers g) = Inr (HandSize g * SectorLength g)"
    unfolding l(1) using p n by (simp add: idiv_def sdiv_nonneg)
  show "idiv (CardKnowledgeSectionLength g) (HandSize g) = Inr (NumPlayers g * SectorLength g)"
    unfolding l(2) using p n by (simp add: idiv_def sdiv_nonneg)
  show "idiv (NumPlayers g * SectorLength g) (NumPlayers g) = Inr (SectorLength g)"
    using p n by (simp add: idiv_def sdiv_nonneg)
qed

lemma EncodeV0Belief_impl_parts:
  assumes "EncodeV0Belief_impl g obs start e = Inr (e', n, cc)" and "valid_game g"
  shows "\<exists>raw. ComputeCardCount g obs = Inr cc \<and>
           EncodeCardKnowledge g obs start e = Inr (raw, CardKnowledgeSectionLength g) \<and>
           n = CardKnowledgeSectionLength g \<and>
           for_each_slot obs (NumPlayers g)
             (\<lambda>player_id card_idx.
                v0_slot (NumColors g * NumRanks g) cc start (CardKnowledgeSectionLength g)
                  (start + HandSize g * SectorLength g * player_id +
                   card_idx * SectorLength g))
             raw = Inr e'"
proof -
  from assms(1) obtain raw len where
    c: "ComputeCardCount g obs = Inr cc"
    and k: "EncodeCardKnowledge g obs start e = Inr (raw, len)"
    by (auto simp: EncodeV0Belief_impl_def Let_def ebind_eq_Inr)
  from EncodeCardKnowledge_result [OF k] have len: "len = CardKnowledgeSectionLength g" by simp
  from assms(1) c k show ?thesis
    unfolding EncodeV0Belief_impl_def Let_def len
    by (auto simp: section_offsets [OF assms(2)] ebind_eq_Inr)
qed

lemma EncodeV0Belief_impl_length:
  assumes "EncodeV0Belief_impl g obs start e = Inr (e', n, cc)" and "valid_game g"
  shows "n = CardKnowledgeSectionLength g \<and> length e' = length e"
proof -
  from EncodeV0Belief_impl_parts [OF assms] obtain raw where
    k: "EncodeCardKnowledge g obs start e = Inr (raw, CardKnowledgeSectionLength g)"
    and n: "n = CardKnowledgeSectionLength g"
    and l: "for_each_slot obs (NumPlayers g)
             (\<lambda>player_id card_idx.
                v0_slot (NumColors g * NumRanks g) cc start (CardKnowledgeSectionLength g)
                  (start + HandSize g * SectorLength g * player_id +
                   card_idx * SectorLength g))
             raw = Inr e'"
    by blast
  have "length raw = length e"
    using EncodeCardKnowledge_result [OF k] by (simp add: only_ones_length)
  moreover have "length e' = length raw"
    by (rule for_each_slot_invariant [OF l, where I = "\<lambda>t. length t = length raw"])
      (auto dest: v0_slot_length)
  ultimately show ?thesis using n by simp
qed

lemma EncodeV0Belief_impl_not_sla:
  assumes "valid_game g" and "hands_fit g obs"
  shows "EncodeV0Belief_impl g obs start e \<noteq> Inl SectionLengthAssert"
proof
  assume f: "EncodeV0Belief_impl g obs start e = Inl SectionLengthAssert"
  from assms(1) have np: "0 \<le> NumPlayers g" by (simp add: valid_game_def)
  note n1 = ComputeCardCount_not_sla [of g obs]
  note n2 = EncodeCardKnowledge_not_sla [OF assms(2) np, of start e]
  have n3: "for_each_slot obs (NumPlayers g)
             (\<lambda>player_id card_idx.
                v0_slot (NumColors g * NumRanks g) cc start len
                  (start + po * player_id + card_idx * pc)) raw \<noteq> Inl SectionLengthAssert"
    for cc len po pc raw
    by (rule for_each_slot_no_error) (simp_all add: v0_slot_not_sla)
  from f n1 n2 n3 show False
    unfolding EncodeV0Belief_impl_def Let_def
    by (auto simp: ebind_eq_Inl section_offsets [OF assms(1)]
        section_offsets [OF assms(1), unfolded SectorLength_def BitsPerCard_def]
        SectorLength_def BitsPerCard_def
        dest!: EncodeCardKnowledge_result)
qed

subsection \<open>The whole vector\<close>

lemma FlatLength_Shape:
  "FlatLength (Shape g) =
     HandsSectionLength g + BoardSectionLength g + DiscardSectionLength g +
     LastActionSectionLength g +
     (if ObservationType g = kMinimal then 0 else CardKnowledgeSectionLength g)"
  by (simp add: FlatLength_def Shape_def)

lemma section_lengths_nonneg:
  assumes "valid_game g"
  shows "0 \<le> HandsSectionLength g" "0 \<le> BoardSectionLength g" "0 \<le> DiscardSectionLength g"
    "0 \<le> LastActionSectionLength g" "0 \<le> CardKnowledgeSectionLength g"
proof -
  from assms have p: "0 < NumColors g" "0 < NumRanks g" "0 < NumPlayers g" "0 < HandSize g"
    "0 \<le> MaxInformationTokens g" "0 \<le> MaxLifeTokens g"
    "NumPlayers g * HandSize g \<le> MaxDeckSize g"
    by (simp_all add: valid_game_def)
  have b: "0 \<le> BitsPerCard g" using p by (simp add: BitsPerCard_def)
  have ph: "0 \<le> NumPlayers g * HandSize g" using p by simp
  show "0 \<le> HandsSectionLength g" using p b ph by (simp add: HandsSectionLength_def)
  show "0 \<le> BoardSectionLength g"
    using p b by (simp add: BoardSectionLength_def BitsPerCard_def)
  show "0 \<le> DiscardSectionLength g"
    using p(7) ph by (simp add: DiscardSectionLength_def)
  show "0 \<le> LastActionSectionLength g" using p b by (simp add: LastActionSectionLength_def)
  show "0 \<le> CardKnowledgeSectionLength g"
    using p b ph by (simp add: CardKnowledgeSectionLength_def)
qed

lemma Encode_cursor:
  assumes "valid_game g" and "hands_fit g obs"
  shows "Encode g obs sh \<noteq> Inl SectionLengthAssert \<and>
         (\<forall>e. Encode g obs sh = Inr e \<longrightarrow> int (length e) = FlatLength (Shape g))"
proof -
  from assms(1) have np: "0 \<le> NumPlayers g" and nc: "0 \<le> NumColors g"
    and deck: "MaxDeckSize g = deck_total g"
    by (simp_all add: valid_game_def)
  note nn = section_lengths_nonneg [OF assms(1)]
  let ?z = "zeros (FlatLength (Shape g))"
  have lz: "int (length ?z) = FlatLength (Shape g)"
    using nn by (simp add: zeros_def FlatLength_Shape)
  note e1 = EncodeHands_not_sla [OF assms(2) np]
  note e2 = EncodeBoard_not_sla [OF nc]
  note e3 = EncodeDiscards_not_sla [OF deck]
  note e4 = EncodeLastAction_impl_not_sla
  note e5 = EncodeV0Belief_impl_not_sla [OF assms]
  show ?thesis
  proof (cases "EncodeHands g obs 0 ?z sh")
    case (Inl err)
    with e1 [of 0 ?z sh] show ?thesis by (simp add: Encode_def Let_def)
  next
    case r1: (Inr a1)
    obtain enc1 n1 where a1: "a1 = (enc1, n1)" by (cases a1)
    from r1 a1 have n1: "n1 = HandsSectionLength g" and l1: "length enc1 = length ?z"
      using EncodeHands_result EncodeHands_only_ones [OF _ assms(2) np] only_ones_length
      by blast+
    show ?thesis
    proof (cases "EncodeBoard g obs n1 enc1")
      case (Inl err)
      with e2 [of obs n1 enc1] r1 a1 show ?thesis by (simp add: Encode_def Let_def)
    next
      case r2: (Inr a2)
      obtain enc2 n2 where a2: "a2 = (enc2, n2)" by (cases a2)
      from r2 a2 have n2: "n2 = BoardSectionLength g" and l2: "length enc2 = length enc1"
        using EncodeBoard_result EncodeBoard_only_ones [OF _ nc] only_ones_length
        by blast+
      show ?thesis
      proof (cases "EncodeDiscards g obs (n1 + n2) enc2")
        case (Inl err)
        with e3 [of obs "n1 + n2" enc2] r1 a1 r2 a2 show ?thesis
          by (simp add: Encode_def Let_def)
      next
        case r3: (Inr a3)
        obtain enc3 n3 where a3: "a3 = (enc3, n3)" by (cases a3)
        from r3 a3 have n3: "n3 = DiscardSectionLength g" and l3: "length enc3 = length enc2"
          using EncodeDiscards_result only_ones_length by blast+
        show ?thesis
        proof (cases "EncodeLastAction_impl g obs (n1 + n2 + n3) enc3")
          case (Inl err)
          with e4 [of g obs "n1 + n2 + n3" enc3] r1 a1 r2 a2 r3 a3 show ?thesis
            by (simp add: Encode_def Let_def)
        next
          case r4: (Inr a4)
          obtain enc4 n4 where a4: "a4 = (enc4, n4)" by (cases a4)
          from r4 a4 have n4: "n4 = LastActionSectionLength g"
            and l4: "length enc4 = length enc3"
            using EncodeLastAction_impl_result only_ones_length by blast+
          have l: "int (length enc4) = FlatLength (Shape g)"
            using l1 l2 l3 l4 lz by simp
          show ?thesis
          proof (cases "ObservationType g = kMinimal")
            case True
            with r1 a1 r2 a2 r3 a3 r4 a4 n1 n2 n3 n4 l show ?thesis
              by (simp add: Encode_def Let_def FlatLength_Shape)
          next
            case False
            show ?thesis
            proof (cases "EncodeV0Belief_impl g obs (n1 + n2 + n3 + n4) enc4")
              case (Inl err)
              with e5 [of "n1 + n2 + n3 + n4" enc4] r1 a1 r2 a2 r3 a3 r4 a4 False
              show ?thesis by (simp add: Encode_def Let_def)
            next
              case r5: (Inr a5)
              obtain enc5 n5 cc where a5: "a5 = (enc5, n5, cc)" by (cases a5)
              from r5 a5 EncodeV0Belief_impl_length [OF _ assms(1)]
              have n5: "n5 = CardKnowledgeSectionLength g"
                and l5: "length enc5 = length enc4"
                by blast+
              from r1 a1 r2 a2 r3 a3 r4 a4 r5 a5 n1 n2 n3 n4 n5 l l5 False show ?thesis
                by (simp add: Encode_def Let_def FlatLength_Shape)
            qed
          qed
        qed
      qed
    qed
  qed
qed

text \<open>
  C3. For a valid game and an observation whose hands fit the hand size, no encoder fails
  the assertion that compares its cursor with the section length, and an encoder that
  returns, returns its section length as the number of entries written; \<^verbatim>\<open>Encode\<close>
  never fails the assertion that the cursor equals the size of the vector, and the vector
  it returns has the length \<^verbatim>\<open>Shape()\<close> gives.
\<close>

theorem section_lengths_never_drift:
  assumes "valid_game g" and "hands_fit g obs"
  shows "(EncodeHands g obs start enc sh \<noteq> Inl SectionLengthAssert \<and>
          (\<forall>e n. EncodeHands g obs start enc sh = Inr (e, n) \<longrightarrow> n = HandsSectionLength g)) \<and>
         (EncodeBoard g obs start enc \<noteq> Inl SectionLengthAssert \<and>
          (\<forall>e n. EncodeBoard g obs start enc = Inr (e, n) \<longrightarrow> n = BoardSectionLength g)) \<and>
         (EncodeDiscards g obs start enc \<noteq> Inl SectionLengthAssert \<and>
          (\<forall>e n. EncodeDiscards g obs start enc = Inr (e, n) \<longrightarrow>
             n = DiscardSectionLength g)) \<and>
         (EncodeLastAction_impl g obs start enc \<noteq> Inl SectionLengthAssert \<and>
          (\<forall>e n. EncodeLastAction_impl g obs start enc = Inr (e, n) \<longrightarrow>
             n = LastActionSectionLength g)) \<and>
         (EncodeCardKnowledge g obs start enc \<noteq> Inl SectionLengthAssert \<and>
          (\<forall>e n. EncodeCardKnowledge g obs start enc = Inr (e, n) \<longrightarrow>
             n = CardKnowledgeSectionLength g)) \<and>
         (EncodeV0Belief_impl g obs start enc \<noteq> Inl SectionLengthAssert \<and>
          (\<forall>e n cc. EncodeV0Belief_impl g obs start enc = Inr (e, n, cc) \<longrightarrow>
             n = CardKnowledgeSectionLength g)) \<and>
         (Encode g obs sh \<noteq> Inl SectionLengthAssert \<and>
          (\<forall>e. Encode g obs sh = Inr e \<longrightarrow> int (length e) = FlatLength (Shape g)))"
proof -
  from assms(1) have np: "0 \<le> NumPlayers g" and nc: "0 \<le> NumColors g"
    and deck: "MaxDeckSize g = deck_total g"
    by (simp_all add: valid_game_def)
  have h: "EncodeHands g obs start enc sh = Inr (e, n) \<longrightarrow> n = HandsSectionLength g"
    for e n using EncodeHands_result by blast
  have b: "EncodeBoard g obs start enc = Inr (e, n) \<longrightarrow> n = BoardSectionLength g"
    for e n using EncodeBoard_result by blast
  have d: "EncodeDiscards g obs start enc = Inr (e, n) \<longrightarrow> n = DiscardSectionLength g"
    for e n using EncodeDiscards_result by blast
  have l: "EncodeLastAction_impl g obs start enc = Inr (e, n) \<longrightarrow>
             n = LastActionSectionLength g"
    for e n using EncodeLastAction_impl_result by blast
  have k: "EncodeCardKnowledge g obs start enc = Inr (e, n) \<longrightarrow>
             n = CardKnowledgeSectionLength g"
    for e n using EncodeCardKnowledge_result by blast
  have v: "EncodeV0Belief_impl g obs start enc = Inr (e, n, cc) \<longrightarrow>
             n = CardKnowledgeSectionLength g"
    for e n cc using EncodeV0Belief_impl_length [OF _ assms(1)] by blast
  show ?thesis
    using EncodeHands_not_sla [OF assms(2) np, of start enc sh] h
      EncodeBoard_not_sla [OF nc, of obs start enc] b
      EncodeDiscards_not_sla [OF deck, of obs start enc] d
      EncodeLastAction_impl_not_sla [of g obs start enc] l
      EncodeCardKnowledge_not_sla [OF assms(2) np, of start enc] k
      EncodeV0Belief_impl_not_sla [OF assms, of start enc] v
      Encode_cursor [OF assms, of sh]
    by simp
qed

lemma hands_fit_small_obs: "hands_fit small_game small_obs"
  by (simp add: hands_fit_def small_game_def small_obs_def)

lemma Encode_small_obs:
  "Encode small_game small_obs False =
     Inr [0, 0, 0, 0, 0, 0, 0, 0, 0, 0, 1, 0, 0, 0, 0, 0, 0, 1,
          1, 0, 0, 0, 1, 0, 1, 0, 1,
          1, 0, 0, 0, 0, 0,
          0, 0, 0, 0, 0, 0, 0, 0, 0, 0, 0, 0, 0, 0, 0, 0, 0, 0, 0, 0, 0, 0,
          1 / 4, 1 / 4, 1 / 4, 1 / 4, 0, 0, 0, 0, 1 / 2, 1 / 2, 0, 0, 1, 0, 0, 0,
          1 / 4, 1 / 4, 1 / 4, 1 / 4, 0, 0, 0, 0, 0, 0, 0, 0, 0, 0, 0, 0]"
  by code_simp

theorem section_lengths_never_drift_witness:
  "valid_game small_game \<and> hands_fit small_game small_obs \<and>
   (\<exists>e. Encode small_game small_obs False = Inr e \<and>
        int (length e) = FlatLength (Shape small_game)) \<and>
   FlatLength (Shape small_game) = 87"
proof -
  have "FlatLength (Shape small_game) = 87"
    by (simp add: FlatLength_Shape small_game_def HandsSectionLength_def BoardSectionLength_def
        DiscardSectionLength_def LastActionSectionLength_def CardKnowledgeSectionLength_def
        BitsPerCard_def)
  with section_lengths_never_drift [OF valid_small_game hands_fit_small_obs, of 0 "[]" False]
    valid_small_game hands_fit_small_obs Encode_small_obs
  show ?thesis by simp
qed

subsection \<open>Card counts\<close>

lemma sum_list_update_int:
  "k < length xs \<Longrightarrow> sum_list (xs[k := v]) = sum_list xs - xs ! k + (v :: int)"
proof (induction xs arbitrary: k)
  case Nil
  then show ?case by simp
next
  case (Cons x xs)
  then show ?case by (cases k) simp_all
qed

lemma remove_card_step:
  assumes "remove_card k (cc, t) = Inr (cc', t')"
  shows "in_bounds cc k \<and> cc' = cc[nat k := cc ! nat k - 1] \<and> t' = t - 1"
  using assms by (auto simp: remove_card_def ebind_eq_Inr vget_eq_Inr vset_eq_Inr)

lemma remove_card_effect:
  assumes "remove_card k (cc, t) = Inr (cc', t')"
  shows "length cc' = length cc \<and> sum_list cc' - t' = sum_list cc - t \<and>
         (\<forall>j<length cc. cc' ! j = cc ! j - (if int j = k then 1 else 0))"
proof -
  from remove_card_step [OF assms] have b: "in_bounds cc k"
    and c: "cc' = cc[nat k := cc ! nat k - 1]" and t: "t' = t - 1" by simp_all
  from b have k: "nat k < length cc" "0 \<le> k" by (auto simp: in_bounds_def)
  have "sum_list cc' = sum_list cc - 1" using k by (simp add: c sum_list_update_int)
  moreover have "cc' ! j = cc ! j - (if int j = k then 1 else 0)" if "j < length cc" for j
    using that k by (auto simp: c nth_list_update)
  ultimately show ?thesis using c t by simp
qed

lemma forM_removals:
  assumes "forM xs body (cc, t) = Inr (cc', t')"
    and "\<And>x cc t cc' t'. x \<in> set xs \<Longrightarrow> body x (cc, t) = Inr (cc', t') \<Longrightarrow>
           length cc' = length cc \<and> sum_list cc' - t' = sum_list cc - (t :: int) \<and>
           (\<forall>j<length cc. cc' ! j = cc ! j - (d x j :: int))"
  shows "length cc' = length cc \<and> sum_list cc' - t' = sum_list cc - t \<and>
         (\<forall>j<length cc. cc' ! j = cc ! j - sum_list (map (\<lambda>x. d x j) xs))"
  using assms
proof (induction xs arbitrary: cc t)
  case Nil
  then show ?case by simp
next
  case (Cons x xs)
  from Cons.prems(1) obtain cc1 t1 where
    a: "body x (cc, t) = Inr (cc1, t1)" and b: "forM xs body (cc1, t1) = Inr (cc', t')"
    by (auto simp: ebind_eq_Inr)
  have s: "length cc1 = length cc \<and> sum_list cc1 - t1 = sum_list cc - t \<and>
           (\<forall>j<length cc. cc1 ! j = cc ! j - d x j)"
    using Cons.prems(2) [of x cc t cc1 t1] a by simp
  have r: "length cc' = length cc1 \<and> sum_list cc' - t' = sum_list cc1 - t1 \<and>
           (\<forall>j<length cc1. cc' ! j = cc1 ! j - sum_list (map (\<lambda>x. d x j) xs))"
  proof (rule Cons.IH [OF b])
    fix y c u c' u'
    assume "y \<in> set xs" "body y (c, u) = Inr (c', u')"
    then show "length c' = length c \<and> sum_list c' - u' = sum_list c - u \<and>
           (\<forall>j<length c. c' ! j = c ! j - d y j)"
      using Cons.prems(2) [of y c u c' u'] by simp
  qed
  from s r show ?case by simp
qed

lemma sum_list_indicator:
  "sum_list (map (\<lambda>x. if P x then 1 else 0) xs) = int (length (filter P xs))"
  by (induction xs) simp_all

lemma length_filter_eq_distinct:
  "distinct xs \<Longrightarrow> length (filter (\<lambda>x. x = a) xs) = (if a \<in> set xs then 1 else 0)"
  by (induction xs) auto

lemma distinct_ints_below: "distinct (ints_below n)"
  by (simp add: ints_below_def distinct_map)

lemma remove_row:
  assumes "forM (ints_below fw) (\<lambda>rank. remove_card (base + rank)) (cc, t) = Inr (cc', t')"
  shows "length cc' = length cc \<and> sum_list cc' - t' = sum_list cc - t \<and>
         (\<forall>j<length cc. cc' ! j = cc ! j - (if base \<le> int j \<and> int j < base + fw then 1 else 0))"
proof -
  have e: "length cc' = length cc \<and> sum_list cc' - t' = sum_list cc - t \<and>
         (\<forall>j<length cc. cc' ! j = cc ! j -
            sum_list (map (\<lambda>rank. if rank = int j - base then 1 else 0) (ints_below fw)))"
  proof (rule forM_removals [OF assms])
    fix x c u c' u'
    assume "remove_card (base + x) (c, u) = Inr (c', u')"
    from remove_card_effect [OF this]
    show "length c' = length c \<and> sum_list c' - u' = sum_list c - u \<and>
           (\<forall>j<length c. c' ! j = c ! j - (if x = int j - base then 1 else 0))"
      by (auto simp: algebra_simps)
  qed
  have "sum_list (map (\<lambda>rank. if rank = int j - base then 1 else 0) (ints_below fw)) =
          (if base \<le> int j \<and> int j < base + fw then 1 else (0 :: int))" for j
    by (simp add: sum_list_indicator length_filter_eq_distinct distinct_ints_below
        set_ints_below)
  with e show ?thesis by simp
qed

lemma remove_fireworks_effect:
  assumes "remove_fireworks g fws c (cc, t) = Inr (cc', t')"
  shows "length cc' = length cc \<and> sum_list cc' - t' = sum_list cc - t \<and>
         (\<forall>j<length cc. cc' ! j = cc ! j -
            (if c * NumRanks g \<le> int j \<and> int j < c * NumRanks g + fws ! nat c then 1 else 0))"
proof (cases "fws ! nat c > 0")
  case True
  with assms have
    "forM (ints_below (fws ! nat c)) (\<lambda>rank. remove_card (c * NumRanks g + rank)) (cc, t) =
       Inr (cc', t')"
    by (auto simp: remove_fireworks_def ebind_eq_Inr vget_eq_Inr)
  from remove_row [OF this] show ?thesis .
next
  case False
  with assms have "cc' = cc" "t' = t"
    by (auto simp: remove_fireworks_def ebind_eq_Inr vget_eq_Inr)
  with False show ?thesis by simp
qed

lemma removals_effect:
  assumes d: "forM (DiscardPile obs)
               (\<lambda>crd. remove_card (card_Color crd * NumRanks g + card_Rank crd)) (cc, t) =
              Inr (cc1, t1)"
    and f: "forM (ints_below (NumColors g)) (remove_fireworks g (Fireworks obs)) (cc1, t1) =
              Inr (cc2, t2)"
  shows "length cc2 = length cc \<and> sum_list cc2 - t2 = sum_list cc - t \<and>
         (\<forall>j<length cc. cc2 ! j = cc ! j - removed_count g obs (int j))"
proof -
  have a: "length cc1 = length cc \<and> sum_list cc1 - t1 = sum_list cc - t \<and>
         (\<forall>j<length cc. cc1 ! j = cc ! j -
            sum_list (map (\<lambda>crd. if card_Color crd * NumRanks g + card_Rank crd = int j
                                  then 1 else 0) (DiscardPile obs)))"
  proof (rule forM_removals [OF d])
    fix x :: HanabiCard and c u c' u'
    assume "remove_card (card_Color x * NumRanks g + card_Rank x) (c, u) = Inr (c', u')"
    from remove_card_effect [OF this]
    show "length c' = length c \<and> sum_list c' - u' = sum_list c - u \<and>
           (\<forall>j<length c. c' ! j = c ! j -
              (if card_Color x * NumRanks g + card_Rank x = int j then 1 else 0))"
      by auto
  qed
  have b: "length cc2 = length cc1 \<and> sum_list cc2 - t2 = sum_list cc1 - t1 \<and>
         (\<forall>j<length cc1. cc2 ! j = cc1 ! j -
            sum_list (map (\<lambda>c. if c * NumRanks g \<le> int j \<and>
                                   int j < c * NumRanks g + Fireworks obs ! nat c
                                then 1 else 0) (ints_below (NumColors g))))"
    by (rule forM_removals [OF f]) (rule remove_fireworks_effect)
  from a b show ?thesis
    by (simp add: removed_count_def sum_list_indicator)
qed

lemma flat_index_div_mod:
  assumes "0 \<le> r" and "r < n"
  shows "(c * n + r) div n = (c :: int)" and "(c * n + r) mod n = r"
  using assms by simp_all

lemma count_full_deck_step:
  assumes "deck_inv g N (c * NumRanks g + r) st" and "0 \<le> c" and "0 \<le> r" and "r < NumRanks g"
    and "count_full_deck g c r st = Inr st'"
  shows "deck_inv g N (c * NumRanks g + r + 1) st'"
proof -
  obtain cc t where st: "st = (cc, t)" by (cases st)
  let ?k = "c * NumRanks g + r"
  let ?v = "NumberCardInstances g c r"
  from assms(2,3,4) have k0: "0 \<le> ?k" by simp
  from assms(1) st have len: "length cc = N" and sum: "sum_list cc = t"
    and zero: "\<And>j. ?k \<le> int j \<Longrightarrow> j < N \<Longrightarrow> cc ! j = 0"
    and full: "\<And>j. int j < ?k \<Longrightarrow> j < N \<Longrightarrow>
        cc ! j = NumberCardInstances g (int j div NumRanks g) (int j mod NumRanks g)"
    by (auto simp: deck_inv_def)
  from assms(5) st have b: "in_bounds cc ?k" and st': "st' = (cc[nat ?k := ?v], t + ?v)"
    by (auto simp: count_full_deck_def Let_def ebind_eq_Inr vset_eq_Inr)
  from b len have kN: "nat ?k < N" by (auto simp: in_bounds_def)
  have z: "cc ! nat ?k = 0" using zero [of "nat ?k"] k0 kN by simp
  have s': "sum_list (cc[nat ?k := ?v]) = t + ?v"
    using kN len sum z by (simp add: sum_list_update_int)
  have zero': "cc[nat ?k := ?v] ! j = 0" if "?k + 1 \<le> int j" "j < N" for j
  proof -
    from that k0 have "j \<noteq> nat ?k" by linarith
    then show ?thesis using that zero [of j] by simp
  qed
  have full': "cc[nat ?k := ?v] ! j =
      NumberCardInstances g (int j div NumRanks g) (int j mod NumRanks g)"
    if "int j < ?k + 1" "j < N" for j
  proof (cases "int j = ?k")
    case True
    then have "j = nat ?k" by simp
    moreover have "int j div NumRanks g = c" "int j mod NumRanks g = r"
      unfolding True using flat_index_div_mod [OF assms(3,4)] by simp_all
    ultimately show ?thesis using kN len by simp
  next
    case False
    with that have "int j < ?k" by simp
    moreover from False k0 have "j \<noteq> nat ?k" by linarith
    ultimately show ?thesis using full [of j] that by simp
  qed
  show ?thesis
    unfolding st' deck_inv_def using len s' zero' full' by simp
qed

lemma count_full_deck_row:
  assumes "deck_inv g N (c * NumRanks g) st" and "0 \<le> c"
    and "forM (ints_below (NumRanks g)) (count_full_deck g c) st = Inr st'"
  shows "deck_inv g N (c * NumRanks g + int (length (ints_below (NumRanks g)))) st'"
proof (rule forM_invariant_idx [OF assms(3),
      where I = "\<lambda>i. deck_inv g N (c * NumRanks g + int i)"])
  show "deck_inv g N (c * NumRanks g + int 0) st" using assms(1) by simp
next
  fix i t t'
  assume i: "i < length (ints_below (NumRanks g))"
    and inv: "deck_inv g N (c * NumRanks g + int i) t"
    and step: "count_full_deck g c (ints_below (NumRanks g) ! i) t = Inr t'"
  from i have "int i < NumRanks g" by simp
  moreover from i step have "count_full_deck g c (int i) t = Inr t'" by simp
  ultimately have d: "deck_inv g N (c * NumRanks g + int i + 1) t'"
    using count_full_deck_step [OF inv assms(2)] by simp
  show "deck_inv g N (c * NumRanks g + int (Suc i)) t'" using d by (simp add: add.assoc add.commute)
qed

lemma count_full_deck_all:
  assumes "0 \<le> NumRanks g" and "0 \<le> NumColors g"
    and "forM (ints_below (NumColors g))
           (\<lambda>color. forM (ints_below (NumRanks g)) (count_full_deck g color))
           (replicate N 0, 0) = Inr st'"
  shows "deck_inv g N (NumColors g * NumRanks g) st'"
proof -
  have "deck_inv g N (int (length (ints_below (NumColors g))) * NumRanks g) st'"
  proof (rule forM_invariant_idx [OF assms(3), where I = "\<lambda>i. deck_inv g N (int i * NumRanks g)"])
    have "sum_list (replicate N (0 :: int)) = 0" by (induction N) simp_all
    then show "deck_inv g N (int 0 * NumRanks g) (replicate N 0, 0)"
      by (simp add: deck_inv_def)
  next
    fix i t t'
    assume i: "i < length (ints_below (NumColors g))"
      and inv: "deck_inv g N (int i * NumRanks g) t"
      and step: "forM (ints_below (NumRanks g))
                   (count_full_deck g (ints_below (NumColors g) ! i)) t = Inr t'"
    from i step have "forM (ints_below (NumRanks g)) (count_full_deck g (int i)) t = Inr t'"
      by simp
    from count_full_deck_row [OF inv _ this] assms(1)
    show "deck_inv g N (int (Suc i) * NumRanks g) t'"
      by (simp add: algebra_simps)
  qed
  then show ?thesis using assms(2) by simp
qed

lemma flat_index_bound:
  assumes "0 \<le> c" "c < nc" "0 \<le> r" "r < (nr :: int)"
  shows "0 \<le> c * nr + r" "c * nr + r < nc * nr"
proof -
  show "0 \<le> c * nr + r" using assms by simp
  have "(c + 1) * nr \<le> nc * nr" using assms by (intro mult_right_mono) simp_all
  then show "c * nr + r < nc * nr" using assms by (simp add: algebra_simps)
qed

lemma flat_index_split:
  assumes "int j < nc * nr" and "0 < (nr :: int)"
  shows "0 \<le> int j div nr" "int j div nr < nc" "0 \<le> int j mod nr" "int j mod nr < nr"
    "int j div nr * nr + int j mod nr = int j"
proof -
  show "0 \<le> int j div nr" using assms(2) by (simp add: pos_imp_zdiv_nonneg_iff)
  show "0 \<le> int j mod nr" "int j mod nr < nr" using assms(2) by simp_all
  show e: "int j div nr * nr + int j mod nr = int j" by simp
  show "int j div nr < nc"
  proof (rule ccontr)
    assume "\<not> int j div nr < nc"
    then have "nc * nr \<le> int j div nr * nr" using assms(2) by (intro mult_right_mono) simp_all
    also have "\<dots> \<le> int j" using e \<open>0 \<le> int j mod nr\<close> by linarith
    finally show False using assms(1) by simp
  qed
qed

lemma ComputeCardCount_parts:
  assumes "valid_game g" and "ComputeCardCount g obs = Inr cc"
  shows "length cc = nat (NumColors g * NumRanks g) \<and>
         sum_list cc = DeckSize obs + total_hand_size (Hands obs) \<and>
         (\<forall>j<length cc. cc ! j =
            NumberCardInstances g (int j div NumRanks g) (int j mod NumRanks g) -
            removed_count g obs (int j))"
proof -
  let ?N = "nat (NumColors g * NumRanks g)"
  from assms(1) have nn: "0 \<le> NumRanks g" "0 \<le> NumColors g" by (simp_all add: valid_game_def)
  from assms(2) obtain st1 cc1 t1 t where
    a: "forM (ints_below (NumColors g))
          (\<lambda>color. forM (ints_below (NumRanks g)) (count_full_deck g color))
          (replicate ?N 0, 0) = Inr st1"
    and b: "forM (DiscardPile obs)
          (\<lambda>crd. remove_card (card_Color crd * NumRanks g + card_Rank crd)) st1 = Inr (cc1, t1)"
    and c: "forM (ints_below (NumColors g)) (remove_fireworks g (Fireworks obs)) (cc1, t1) =
          Inr (cc, t)"
    and d: "t = DeckSize obs + total_hand_size (Hands obs)"
    by (auto simp: ComputeCardCount_def Let_def ebind_eq_Inr)
  obtain cc0 t0 where st1: "st1 = (cc0, t0)" by (cases st1)
  from count_full_deck_all [OF nn a] st1 have len0: "length cc0 = ?N" and sum0: "sum_list cc0 = t0"
    and full: "\<And>j. j < ?N \<Longrightarrow>
        cc0 ! j = NumberCardInstances g (int j div NumRanks g) (int j mod NumRanks g)"
    by (auto simp: deck_inv_def)
  from removals_effect [OF b [unfolded st1] c] have
    len: "length cc = length cc0" and sum: "sum_list cc - t = sum_list cc0 - t0"
    and eff: "\<And>j. j < length cc0 \<Longrightarrow> cc ! j = cc0 ! j - removed_count g obs (int j)"
    by simp_all
  from len len0 sum sum0 d eff full show ?thesis by simp
qed

text \<open>
  C5, as stated, fails: with two copies of a card in the discard pile of which the deck
  holds one, and a deck size that matches, the consistency check passes and the count
  of that card is -1.
\<close>

theorem card_count_negative_counterexample:
  "ComputeCardCount small_game over_discarded_obs = Inr [2, - 1, 2, 1] \<and>
   sum_list [2, - 1, 2, 1] =
     DeckSize over_discarded_obs + total_hand_size (Hands over_discarded_obs) \<and>
   [2, - 1, 2, 1 :: int] ! 1 < 0"
proof -
  have "ComputeCardCount small_game over_discarded_obs = Inr [2, - 1, 2, 1]"
    by code_simp
  moreover have
    "DeckSize over_discarded_obs + total_hand_size (Hands over_discarded_obs) = 4"
    by (simp add: over_discarded_obs_def total_hand_size_def)
  ultimately show ?thesis by simp
qed

text \<open>
  C5, amended: when \<^verbatim>\<open>ComputeCardCount\<close> returns (it fails when the derived total is
  not the deck size plus the cards held in all hands), the counts sum to exactly that
  number; the count of a card value is its number of instances minus the removals made
  for it (its copies in the discard pile, and one when its rank is below the firework of
  its colour); so every count is non-negative exactly when no card value is removed
  more often than it has instances.
\<close>

theorem card_count_sum_and_sign:
  assumes "valid_game g" and "ComputeCardCount g obs = Inr cc"
  shows "length cc = nat (NumColors g * NumRanks g) \<and>
         sum_list cc = DeckSize obs + total_hand_size (Hands obs) \<and>
         (\<forall>c r. 0 \<le> c \<and> c < NumColors g \<and> 0 \<le> r \<and> r < NumRanks g \<longrightarrow>
            cc ! nat (c * NumRanks g + r) =
              NumberCardInstances g c r - removed_count g obs (c * NumRanks g + r)) \<and>
         ((\<forall>x \<in> set cc. 0 \<le> x) \<longleftrightarrow> within_deck g obs)"
proof -
  let ?nr = "NumRanks g" and ?nc = "NumColors g"
  from assms(1) have pos: "0 < ?nr" "0 < ?nc" by (simp_all add: valid_game_def)
  from ComputeCardCount_parts [OF assms] have len: "length cc = nat (?nc * ?nr)"
    and sum: "sum_list cc = DeckSize obs + total_hand_size (Hands obs)"
    and eff: "\<And>j. j < length cc \<Longrightarrow> cc ! j =
            NumberCardInstances g (int j div ?nr) (int j mod ?nr) - removed_count g obs (int j)"
    by simp_all
  have cell: "nat (c * ?nr + r) < length cc \<and>
              cc ! nat (c * ?nr + r) =
                NumberCardInstances g c r - removed_count g obs (c * ?nr + r)"
    if "0 \<le> c" "c < ?nc" "0 \<le> r" "r < ?nr" for c r
  proof -
    from flat_index_bound [OF that] have b: "0 \<le> c * ?nr + r" "c * ?nr + r < ?nc * ?nr" .
    then have l: "nat (c * ?nr + r) < length cc" by (simp add: len)
    from eff [OF l] b flat_index_div_mod [OF that(3,4), of c] show ?thesis
      using l by simp
  qed
  have sign: "(\<forall>x \<in> set cc. 0 \<le> x) \<longleftrightarrow> within_deck g obs"
  proof
    assume nonneg: "\<forall>x \<in> set cc. 0 \<le> x"
    have "removed_count g obs (c * ?nr + r) \<le> NumberCardInstances g c r"
      if "0 \<le> c" "c < ?nc" "0 \<le> r" "r < ?nr" for c r
    proof -
      from cell [OF that] nonneg have "0 \<le> cc ! nat (c * ?nr + r)"
        using nth_mem by blast
      with cell [OF that] show ?thesis by simp
    qed
    then show "within_deck g obs"
      by (simp add: within_deck_def list_all_iff set_ints_below)
  next
    assume w: "within_deck g obs"
    show "\<forall>x \<in> set cc. 0 \<le> x"
    proof
      fix x assume "x \<in> set cc"
      then obtain j where j: "j < length cc" "x = cc ! j" by (auto simp: in_set_conv_nth)
      from j(1) len pos have "int j < ?nc * ?nr" by simp
      note sp = flat_index_split [OF this pos(1)]
      from w have "\<forall>c\<in>{0..<?nc}. \<forall>r\<in>{0..<?nr}.
          removed_count g obs (c * ?nr + r) \<le> NumberCardInstances g c r"
        by (simp add: within_deck_def list_all_iff set_ints_below)
      then have "removed_count g obs (int j div ?nr * ?nr + int j mod ?nr) \<le>
           NumberCardInstances g (int j div ?nr) (int j mod ?nr)"
        using sp(1-4) by (metis atLeastLessThan_iff)
      then have "removed_count g obs (int j) \<le>
           NumberCardInstances g (int j div ?nr) (int j mod ?nr)"
        unfolding sp(5) .
      with eff [OF j(1)] j(2) show "0 \<le> x" by simp
    qed
  qed
  from len sum cell sign show ?thesis by simp
qed

lemma ComputeCardCount_small_obs: "ComputeCardCount small_game small_obs = Inr [1, 1, 1, 1]"
  by code_simp

theorem card_count_sum_and_sign_witness:
  "valid_game small_game \<and> ComputeCardCount small_game small_obs = Inr [1, 1, 1, 1] \<and>
   sum_list [1, 1, 1, 1] = DeckSize small_obs + total_hand_size (Hands small_obs) \<and>
   within_deck small_game small_obs"
  using card_count_sum_and_sign [OF valid_small_game ComputeCardCount_small_obs]
    valid_small_game ComputeCardCount_small_obs
  by simp

subsection \<open>Belief, version 0\<close>

lemma ints_below_int_Suc: "ints_below (int (Suc i)) = ints_below (int i) @ [int i]"
  unfolding ints_below_def nat_int by simp

lemma in_slot_Suc:
  "in_slot base (int (Suc i)) j \<longleftrightarrow> in_slot base (int i) j \<or> int j = base + int i"
  unfolding in_slot_def by auto

lemma v0_weigh_step:
  assumes "weigh_inv e cc base i st" and "v0_weigh cc start len base (int i) st = Inr st'"
  shows "weigh_inv e cc base (Suc i) st'"
proof -
  obtain e1 t where st: "st = (e1, t)" by (cases st)
  from assms(1) st have len: "length e1 = length e" and t: "t = slot_total e cc base (int i)"
    and bnd: "\<And>k. k < i \<Longrightarrow> in_bounds e (base + int k) \<and> in_bounds cc (int k)"
    and pt: "\<And>j. j < length e \<Longrightarrow> e1 ! j =
        (if in_slot base (int i) j then e ! j * of_int (cc ! nat (int j - base)) else e ! j)"
    by (auto simp: weigh_inv_def)
  let ?o = "base + int i"
  from assms(2) st have b1: "in_bounds e1 ?o" and b2: "in_bounds cc (int i)"
    and st': "st' = (e1[nat ?o := e1 ! nat ?o * of_int (cc ! nat (int i))],
                     t + e1 ! nat ?o * of_int (cc ! nat (int i)))"
    by (auto simp: v0_weigh_def Let_def ebind_eq_Inr vget_eq_Inr vset_eq_Inr)
  from b1 len have o: "0 \<le> ?o" "nat ?o < length e" and be: "in_bounds e ?o"
    by (auto simp: in_bounds_def)
  have "\<not> in_slot base (int i) (nat ?o)" using o by (simp add: in_slot_def)
  then have v: "e1 ! nat ?o = e ! nat ?o" using pt [OF o(2)] by simp
  have t': "t + e1 ! nat ?o * of_int (cc ! nat (int i)) = slot_total e cc base (int (Suc i))"
    unfolding v t slot_total_def ints_below_int_Suc by simp
  have bnd': "in_bounds e (base + int k) \<and> in_bounds cc (int k)" if "k < Suc i" for k
    using that bnd [of k] be b2 by (cases "k = i") auto
  have pt': "e1[nat ?o := e1 ! nat ?o * of_int (cc ! nat (int i))] ! j =
        (if in_slot base (int (Suc i)) j then e ! j * of_int (cc ! nat (int j - base)) else e ! j)"
    if "j < length e" for j
  proof (cases "j = nat ?o")
    case True
    then have "int j = ?o" using o by simp
    then show ?thesis unfolding in_slot_Suc using True o len v by simp
  next
    case False
    then have "int j \<noteq> ?o" using o by linarith
    then show ?thesis unfolding in_slot_Suc using False pt [OF that] by simp
  qed
  show ?thesis
    unfolding st' weigh_inv_def using len t' bnd' pt' by simp
qed

lemma normalize_at_step:
  assumes "norm_inv e1 t base i e2" and "normalize_at t base (int i) e2 = Inr e3"
  shows "norm_inv e1 t base (Suc i) e3"
proof -
  from assms(1) have len: "length e2 = length e1"
    and pt: "\<And>j. j < length e1 \<Longrightarrow>
        e2 ! j = (if in_slot base (int i) j then e1 ! j / t else e1 ! j)"
    by (auto simp: norm_inv_def)
  let ?o = "base + int i"
  from assms(2) have b: "in_bounds e2 ?o" and e3: "e3 = e2[nat ?o := e2 ! nat ?o / t]"
    by (auto simp: normalize_at_def Let_def ebind_eq_Inr vget_eq_Inr vset_eq_Inr)
  from b len have o: "0 \<le> ?o" "nat ?o < length e1" by (auto simp: in_bounds_def)
  have "\<not> in_slot base (int i) (nat ?o)" using o by (simp add: in_slot_def)
  then have v: "e2 ! nat ?o = e1 ! nat ?o" using pt [OF o(2)] by simp
  have pt': "e3 ! j = (if in_slot base (int (Suc i)) j then e1 ! j / t else e1 ! j)"
    if "j < length e1" for j
  proof (cases "j = nat ?o")
    case True
    then have "int j = ?o" using o by simp
    then show ?thesis unfolding in_slot_Suc e3 using True o len v by simp
  next
    case False
    then have "int j \<noteq> ?o" using o by linarith
    then show ?thesis unfolding in_slot_Suc e3 using False pt [OF that] by simp
  qed
  show ?thesis unfolding norm_inv_def using len pt' by (simp add: e3)
qed

lemma slot_total_empty: "n \<le> 0 \<Longrightarrow> slot_total e cc base n = 0"
  by (simp add: slot_total_def)

lemma v0_slot_effect:
  assumes "v0_slot n cc start len base e = Inr e'"
  shows "0 < n \<and> 0 \<le> base \<and> base + n \<le> int (length e) \<and> n \<le> int (length cc) \<and>
         length e' = length e \<and> 0 < slot_total e cc base n \<and>
         (\<forall>j<length e. e' ! j =
            (if in_slot base n j
             then e ! j * of_int (cc ! nat (int j - base)) / slot_total e cc base n
             else e ! j))"
proof -
  from assms obtain e1 t where
    a: "forM (ints_below n) (v0_weigh cc start len base) (e, 0) = Inr (e1, t)"
    and pos: "0 < t"
    and b: "forM (ints_below n) (normalize_at t base) e1 = Inr e'"
    by (auto simp: v0_slot_def ebind_eq_Inr)
  have w: "weigh_inv e cc base (length (ints_below n)) (e1, t)"
  proof (rule forM_invariant_idx [OF a, where I = "weigh_inv e cc base"])
    show "weigh_inv e cc base 0 (e, 0)"
      by (simp add: weigh_inv_def slot_total_def in_slot_def)
  next
    fix i st st'
    assume "i < length (ints_below n)" "weigh_inv e cc base i st"
      "v0_weigh cc start len base (ints_below n ! i) st = Inr st'"
    then show "weigh_inv e cc base (Suc i) st'"
      using v0_weigh_step [of e cc base i st start len st'] by simp
  qed
  have n: "0 < n"
  proof (rule ccontr)
    assume "\<not> 0 < n"
    then have "t = 0" using w by (simp add: weigh_inv_def slot_total_empty)
    with pos show False by simp
  qed
  then have nn: "int (length (ints_below n)) = n" by simp
  from w have len1: "length e1 = length e" and t: "t = slot_total e cc base n"
    and bnd: "\<And>k. k < nat n \<Longrightarrow> in_bounds e (base + int k) \<and> in_bounds cc (int k)"
    and pt1: "\<And>j. j < length e \<Longrightarrow> e1 ! j =
        (if in_slot base n j then e ! j * of_int (cc ! nat (int j - base)) else e ! j)"
    unfolding weigh_inv_def nn by auto
  have m: "norm_inv e1 t base (length (ints_below n)) e'"
  proof (rule forM_invariant_idx [OF b, where I = "norm_inv e1 t base"])
    show "norm_inv e1 t base 0 e1"
      by (simp add: norm_inv_def in_slot_def)
  next
    fix i e2 e3
    assume "i < length (ints_below n)" "norm_inv e1 t base i e2"
      "normalize_at t base (ints_below n ! i) e2 = Inr e3"
    then show "norm_inv e1 t base (Suc i) e3"
      using normalize_at_step [of e1 t base i e2 e3] by simp
  qed
  then have len2: "length e' = length e1"
    and pt2: "\<And>j. j < length e1 \<Longrightarrow> e' ! j = (if in_slot base n j then e1 ! j / t else e1 ! j)"
    unfolding norm_inv_def nn by auto
  from bnd [of 0] n have b0: "0 \<le> base" by (simp add: in_bounds_def)
  from bnd [of "nat n - 1"] n have b1: "base + n \<le> int (length e)" "n \<le> int (length cc)"
    by (auto simp: in_bounds_def)
  from n b0 b1 len1 len2 pos t pt1 pt2 show ?thesis by simp
qed

lemma sum_list_divide:
  "sum_list (map (\<lambda>x. f x / (c :: rat)) xs) = sum_list (map f xs) / c"
  by (induction xs) (simp_all add: add_divide_distrib)

lemma v0_slot_sum:
  assumes "v0_slot n cc start len base e = Inr e'"
  shows "slot_sum e' base n = 1"
proof -
  note eff = v0_slot_effect [OF assms]
  let ?T = "slot_total e cc base n"
  have "e' ! nat (base + i) = e ! nat (base + i) * of_int (cc ! nat i) / ?T"
    if "i \<in> set (ints_below n)" for i
  proof -
    from that have i: "0 \<le> i" "i < n" by (simp_all add: set_ints_below)
    with eff have "nat (base + i) < length e" "in_slot base n (nat (base + i))"
      by (auto simp: in_slot_def)
    moreover have "nat (int (nat (base + i)) - base) = nat i" using i eff by simp
    ultimately show ?thesis using eff by simp
  qed
  then have "slot_sum e' base n =
      sum_list (map (\<lambda>i. e ! nat (base + i) * of_int (cc ! nat i) / ?T) (ints_below n))"
    unfolding slot_sum_def by (intro arg_cong [where f = sum_list] map_cong) simp_all
  also have "\<dots> = ?T / ?T" by (simp add: sum_list_divide slot_total_def)
  also have "\<dots> = 1" using eff by simp
  finally show ?thesis .
qed

lemma slot_sum_cong:
  assumes "\<And>j. in_slot base n j \<Longrightarrow> e' ! j = e ! j" and "0 \<le> base"
  shows "slot_sum e' base n = slot_sum e base n"
  unfolding slot_sum_def
proof (intro arg_cong [where f = sum_list] map_cong refl)
  fix i assume "i \<in> set (ints_below n)"
  then have "in_slot base n (nat (base + i))"
    using assms(2) by (simp add: set_ints_below in_slot_def)
  then show "e' ! nat (base + i) = e ! nat (base + i)" by (rule assms(1))
qed

lemma slot_total_cong:
  assumes "\<And>j. in_slot base n j \<Longrightarrow> e' ! j = e ! j" and "0 \<le> base"
  shows "slot_total e' cc base n = slot_total e cc base n"
  unfolding slot_total_def
proof (intro arg_cong [where f = sum_list] map_cong refl)
  fix i assume "i \<in> set (ints_below n)"
  then have "in_slot base n (nat (base + i))"
    using assms(2) by (simp add: set_ints_below in_slot_def)
  then show "e' ! nat (base + i) * of_int (cc ! nat i) = e ! nat (base + i) * of_int (cc ! nat i)"
    using assms(1) by simp
qed

lemma for_each_slot_progress:
  assumes run: "for_each_slot obs np body s = Inr s'"
    and start: "I {} s"
    and step: "\<And>P p k t t'. I P t \<Longrightarrow> p < nat np \<Longrightarrow> k < length (Cards (Hands obs ! p)) \<Longrightarrow>
                 body (int p) (int k) t = Inr t' \<Longrightarrow> I (insert (p, k) P) t'"
  shows "I {(p, k). p < nat np \<and> k < length (Cards (Hands obs ! p))} s'"
proof -
  let ?done = "\<lambda>i. {(p, k). p < i \<and> k < length (Cards (Hands obs ! p))}"
  have "I (?done (length (ints_below np))) s'"
  proof (rule forM_invariant_idx [OF run [unfolded for_each_slot_def],
        where I = "\<lambda>i. I (?done i)"])
    show "I (?done 0) s" using start by simp
  next
    fix i t t'
    assume i: "i < length (ints_below np)" and inv: "I (?done i) t"
      and body: "ebind (vget (Hands obs) (ints_below np ! i))
                   (\<lambda>hand. let num_cards = int (length (Cards hand))
                            in forM (ints_below num_cards) (body (ints_below np ! i)) t) =
                 Inr t'"
    from i have ii: "ints_below np ! i = int i" "i < nat np" by simp_all
    let ?m = "length (Cards (Hands obs ! i))"
    from body have inner: "forM (ints_below (int ?m)) (body (int i)) t = Inr t'"
      unfolding ii by (auto simp: ebind_eq_Inr vget_eq_Inr)
    let ?row = "\<lambda>j. ?done i \<union> {(p, k). p = i \<and> k < j}"
    have "I (?row (length (ints_below (int ?m)))) t'"
    proof (rule forM_invariant_idx [OF inner, where I = "\<lambda>j. I (?row j)"])
      show "I (?row 0) t" using inv by simp
    next
      fix j u u'
      assume j: "j < length (ints_below (int ?m))" and invj: "I (?row j) u"
        and bj: "body (int i) (ints_below (int ?m) ! j) u = Inr u'"
      from j have jj: "ints_below (int ?m) ! j = int j" "j < ?m" by simp_all
      from step [OF invj ii(2) jj(2)] bj have "I (insert (i, j) (?row j)) u'"
        unfolding jj by simp
      moreover have "insert (i, j) (?row j) = ?row (Suc j)" by (auto simp: less_Suc_eq)
      ultimately show "I (?row (Suc j)) u'" by simp
    qed
    moreover have "?row (length (ints_below (int ?m))) = ?done (Suc i)"
      by (auto simp: less_Suc_eq)
    ultimately show "I (?done (Suc i)) t'" by simp
  qed
  then show ?thesis by simp
qed

lemma slot_same_or_disjoint:
  assumes "0 < S" and "n \<le> S" and "b1 = start + S * s1" and "b2 = start + S * (s2 :: int)"
  shows "b1 = b2 \<or> (\<forall>j. \<not> (in_slot b1 n j \<and> in_slot b2 n j))"
proof (cases "s1 = s2")
  case True
  then show ?thesis using assms by simp
next
  case False
  have far: "b + S \<le> b'" if "s < s'" "b = start + S * s" "b' = start + S * s'" for s s' b b'
  proof -
    from that(1) have "S * (s + 1) \<le> S * s'" using assms(1) by (intro mult_left_mono) simp_all
    then show ?thesis using that(2,3) by (simp add: algebra_simps)
  qed
  from False consider "s1 < s2" | "s2 < s1" by linarith
  then show ?thesis
  proof cases
    case 1
    from far [OF 1 assms(3,4)] assms(2) show ?thesis by (auto simp: in_slot_def)
  next
    case 2
    from far [OF 2 assms(4,3)] assms(2) show ?thesis by (auto simp: in_slot_def)
  qed
qed

lemma v0_inv_step:
  assumes inv: "v0_inv raw cc n B P e"
    and run: "v0_slot n cc start len (B s) e = Inr e'"
    and lattice: "\<And>s1 s2. B s1 = B s2 \<or> (\<forall>j. \<not> (in_slot (B s1) n j \<and> in_slot (B s2) n j))"
  shows "v0_inv raw cc n B (insert s P) e'"
proof -
  note eff = v0_slot_effect [OF run]
  from inv have len: "length e = length raw"
    and zero: "\<And>j. j < length raw \<Longrightarrow> raw ! j = 0 \<Longrightarrow> e ! j = 0"
    and good: "\<And>s'. s' \<in> P \<Longrightarrow> 0 \<le> B s' \<and> B s' + n \<le> int (length raw) \<and>
                  slot_sum e (B s') n = 1 \<and> 0 < slot_total raw cc (B s') n"
    and frame: "\<And>j. j < length raw \<Longrightarrow> (\<forall>s'\<in>P. \<not> in_slot (B s') n j) \<Longrightarrow> e ! j = raw ! j"
    by (auto simp: v0_inv_def)
  from eff len have len': "length e' = length raw" by simp
  have pt: "e' ! j = (if in_slot (B s) n j
                      then e ! j * of_int (cc ! nat (int j - B s)) / slot_total e cc (B s) n
                      else e ! j)" if "j < length raw" for j
    using eff that len by simp
  have in_len: "j < length raw" if "in_slot b n j" "b + n \<le> int (length raw)" for j b
    using that by (simp add: in_slot_def)
  have zero': "e' ! j = 0" if "j < length raw" "raw ! j = 0" for j
    using pt [OF that(1)] zero [OF that] by simp
  have tot: "0 < slot_total raw cc (B s) n"
  proof (cases "\<exists>s'\<in>P. B s' = B s")
    case True
    then show ?thesis using good by force
  next
    case False
    have "e ! j = raw ! j" if "in_slot (B s) n j" for j
    proof (rule frame)
      show "j < length raw" using that eff len by (simp add: in_slot_def)
      show "\<forall>s'\<in>P. \<not> in_slot (B s') n j"
        using False lattice [of _ s] that by blast
    qed
    then have "slot_total e cc (B s) n = slot_total raw cc (B s) n"
      using eff by (intro slot_total_cong) simp_all
    then show ?thesis using eff by simp
  qed
  have good': "0 \<le> B s' \<and> B s' + n \<le> int (length raw) \<and> slot_sum e' (B s') n = 1 \<and>
               0 < slot_total raw cc (B s') n" if "s' \<in> insert s P" for s'
  proof (cases "B s' = B s")
    case True
    then show ?thesis using eff len tot v0_slot_sum [OF run] by simp
  next
    case False
    with that have s': "s' \<in> P" by auto
    have "e' ! j = e ! j" if "in_slot (B s') n j" for j
    proof -
      from that good [OF s'] have "j < length raw" by (simp add: in_slot_def)
      moreover from that False lattice [of s' s] have "\<not> in_slot (B s) n j" by blast
      ultimately show ?thesis using pt by simp
    qed
    then have "slot_sum e' (B s') n = slot_sum e (B s') n"
      using good [OF s'] by (intro slot_sum_cong) simp_all
    then show ?thesis using good [OF s'] by simp
  qed
  have frame': "e' ! j = raw ! j" if "j < length raw" "\<forall>s'\<in>insert s P. \<not> in_slot (B s') n j" for j
    using pt [OF that(1)] frame [OF that(1)] that(2) by simp
  show ?thesis
    unfolding v0_inv_def using len' zero' good' frame' by blast
qed

lemma slot_base_lattice:
  assumes "valid_game g"
  shows "slot_base g start p k = slot_base g start p' k' \<or>
         (\<forall>j. \<not> (in_slot (slot_base g start p k) (BitsPerCard g) j \<and>
                   in_slot (slot_base g start p' k') (BitsPerCard g) j))"
proof (rule slot_same_or_disjoint [where S = "SectorLength g" and start = start])
  show "0 < SectorLength g" using assms by (rule SectorLength_pos)
  show "BitsPerCard g \<le> SectorLength g"
    using assms by (simp add: SectorLength_def valid_game_def)
  show "slot_base g start p k = start + SectorLength g * (HandSize g * int p + int k)"
    by (simp add: slot_base_def algebra_simps)
  show "slot_base g start p' k' = start + SectorLength g * (HandSize g * int p' + int k')"
    by (simp add: slot_base_def algebra_simps)
qed

lemma v0_belief_slots:
  assumes "valid_game g" and "EncodeV0Belief_impl g obs start e = Inr (e', len, cc)"
  shows "\<exists>raw. ComputeCardCount g obs = Inr cc \<and>
           EncodeCardKnowledge g obs start e = Inr (raw, len) \<and>
           len = CardKnowledgeSectionLength g \<and>
           v0_inv raw cc (BitsPerCard g) (\<lambda>(p, k). slot_base g start p k) (occupied g obs) e'"
proof -
  from EncodeV0Belief_impl_parts [OF assms(2,1)] obtain raw where
    c: "ComputeCardCount g obs = Inr cc"
    and k: "EncodeCardKnowledge g obs start e = Inr (raw, CardKnowledgeSectionLength g)"
    and n: "len = CardKnowledgeSectionLength g"
    and l: "for_each_slot obs (NumPlayers g)
             (\<lambda>player_id card_idx.
                v0_slot (NumColors g * NumRanks g) cc start (CardKnowledgeSectionLength g)
                  (start + HandSize g * SectorLength g * player_id +
                   card_idx * SectorLength g))
             raw = Inr e'"
    by blast
  let ?B = "\<lambda>(p, k). slot_base g start p k"
  let ?n = "BitsPerCard g"
  have "v0_inv raw cc ?n ?B {(p, k). p < nat (NumPlayers g) \<and> k < length (Cards (Hands obs ! p))} e'"
  proof (rule for_each_slot_progress [OF l, where I = "v0_inv raw cc ?n ?B"])
    show "v0_inv raw cc ?n ?B {} raw" by (simp add: v0_inv_def)
  next
    fix P p k t t'
    assume inv: "v0_inv raw cc ?n ?B P t"
      and run: "v0_slot (NumColors g * NumRanks g) cc start (CardKnowledgeSectionLength g)
                  (start + HandSize g * SectorLength g * int p + int k * SectorLength g) t =
                Inr t'"
    from run have run': "v0_slot ?n cc start (CardKnowledgeSectionLength g) (?B (p, k)) t = Inr t'"
      by (simp add: BitsPerCard_def slot_base_def)
    show "v0_inv raw cc ?n ?B (insert (p, k) P) t'"
    proof (rule v0_inv_step [OF inv run'])
      fix s1 s2 :: "nat \<times> nat"
      show "?B s1 = ?B s2 \<or> (\<forall>j. \<not> (in_slot (?B s1) ?n j \<and> in_slot (?B s2) ?n j))"
        using slot_base_lattice [OF assms(1), of start "fst s1" "snd s1" "fst s2" "snd s2"]
        by (simp add: case_prod_unfold)
    qed
  qed
  then show ?thesis using c k n by (auto simp: occupied_def)
qed

text \<open>
  C1. When \<^verbatim>\<open>EncodeV0Belief_\<close> returns, for every card held by every player the
  sub-block of its slot sums to 1, is 0 wherever the card-knowledge encoding of the same
  buffer is 0 (the card values the plausibility grid excludes), and the total weighted by
  the card counts, which the entries were divided by, was positive: with a total that is
  not positive the function fails its assertion and returns nothing.
\<close>

theorem v0_belief_is_distribution:
  assumes "valid_game g"
    and "EncodeV0Belief_impl g obs start enc = Inr (enc', len, cc)"
    and "p < nat (NumPlayers g)" and "k < length (Cards (Hands obs ! p))"
  shows "\<exists>raw. EncodeCardKnowledge g obs start enc = Inr (raw, len) \<and>
           ComputeCardCount g obs = Inr cc \<and>
           slot_sum enc' (slot_base g start p k) (BitsPerCard g) = 1 \<and>
           (\<forall>j. in_slot (slot_base g start p k) (BitsPerCard g) j \<and> raw ! j = 0 \<longrightarrow>
                enc' ! j = 0) \<and>
           0 < slot_total raw cc (slot_base g start p k) (BitsPerCard g)"
proof -
  from v0_belief_slots [OF assms(1,2)] obtain raw where
    c: "ComputeCardCount g obs = Inr cc"
    and r: "EncodeCardKnowledge g obs start enc = Inr (raw, len)"
    and inv: "v0_inv raw cc (BitsPerCard g) (\<lambda>(p, k). slot_base g start p k) (occupied g obs) enc'"
    by blast
  have occ: "(p, k) \<in> occupied g obs" using assms(3,4) by (simp add: occupied_def)
  from inv occ have
    b: "slot_base g start p k + BitsPerCard g \<le> int (length raw)"
    and s: "slot_sum enc' (slot_base g start p k) (BitsPerCard g) = 1"
    and t: "0 < slot_total raw cc (slot_base g start p k) (BitsPerCard g)"
    and z: "\<And>j. j < length raw \<Longrightarrow> raw ! j = 0 \<Longrightarrow> enc' ! j = 0"
    unfolding v0_inv_def by auto
  have "enc' ! j = 0" if "in_slot (slot_base g start p k) (BitsPerCard g) j" "raw ! j = 0" for j
  proof (rule z)
    show "j < length raw" using that(1) b by (simp add: in_slot_def)
    show "raw ! j = 0" by (rule that(2))
  qed
  with c r s t show ?thesis by blast
qed

lemma v0_small_obs:
  "EncodeV0Belief_impl small_game small_obs 0 (zeros 32) =
     Inr ([1 / 4, 1 / 4, 1 / 4, 1 / 4, 0, 0, 0, 0, 1 / 2, 1 / 2, 0, 0, 1, 0, 0, 0,
           1 / 4, 1 / 4, 1 / 4, 1 / 4, 0, 0, 0, 0, 0, 0, 0, 0, 0, 0, 0, 0],
          32, [1, 1, 1, 1])"
  by code_simp

theorem v0_belief_is_distribution_witness:
  "valid_game small_game \<and>
   EncodeV0Belief_impl small_game small_obs 0 (zeros 32) =
     Inr ([1 / 4, 1 / 4, 1 / 4, 1 / 4, 0, 0, 0, 0, 1 / 2, 1 / 2, 0, 0, 1, 0, 0, 0,
           1 / 4, 1 / 4, 1 / 4, 1 / 4, 0, 0, 0, 0, 0, 0, 0, 0, 0, 0, 0, 0],
          32, [1, 1, 1, 1]) \<and>
   (1 :: nat) < length (Cards (Hands small_obs ! 0)) \<and>
   slot_base small_game 0 0 1 = 8 \<and>
   slot_sum [1 / 4, 1 / 4, 1 / 4, 1 / 4, 0, 0, 0, 0, 1 / 2, 1 / 2, 0, 0, 1, 0, 0, 0,
             1 / 4, 1 / 4, 1 / 4, 1 / 4, 0, 0, 0, 0, 0, 0, 0, 0, 0, 0, 0, 0]
     (slot_base small_game 0 0 1) (BitsPerCard small_game) = 1"
proof -
  have p: "0 < nat (NumPlayers small_game)" by (simp add: small_game_def)
  have k: "1 < length (Cards (Hands small_obs ! 0))" by (simp add: small_obs_def)
  have b: "slot_base small_game 0 0 1 = 8"
    by (simp add: slot_base_def small_game_def SectorLength_def BitsPerCard_def)
  from v0_belief_is_distribution [OF valid_small_game v0_small_obs p k]
    valid_small_game v0_small_obs k b
  show ?thesis by auto
qed

subsection \<open>The card-knowledge section of the whole vector\<close>









subsection \<open>The fields of the Discards section\<close>

lemma thermometer_block:
  assumes "k \<le> w"
  shows "thermometer (int k) (int (length pre)) (pre @ replicate w 0 @ post) =
           Inr (pre @ replicate k 1 @ replicate (w - k) 0 @ post)"
  using assms
proof (induction k)
  case 0
  show ?case by (simp add: thermometer_def)
next
  case (Suc k)
  then have k: "k < w" by simp
  then obtain m where m: "w - k = Suc m" "w - Suc k = m" by (cases "w - k") auto
  have u: "(pre @ replicate k 1 @ replicate (w - k) 0 @ post)[length pre + k := 1] =
             pre @ replicate (Suc k) 1 @ replicate (w - Suc k) (0 :: rat) @ post"
    unfolding m by (simp add: list_update_append replicate_app_Cons_same)
  have b: "in_bounds (pre @ replicate k 1 @ replicate (w - k) (0 :: rat) @ post)
             (int (length pre) + int k)"
    using k by (simp add: in_bounds_def)
  have n: "nat (int (length pre) + int k) = length pre + k" by simp
  from Suc.IH k have
    "forM (ints_below (int k)) (\<lambda>i enc. vset enc (int (length pre) + i) 1)
       (pre @ replicate w 0 @ post) = Inr (pre @ replicate k 1 @ replicate (w - k) 0 @ post)"
    by (simp add: thermometer_def)
  then show ?case
    unfolding thermometer_def ints_below_int_Suc forM_snoc
    using b u by (simp add: vset_def n del: replicate_Suc)
qed

lemma forM_blocks:
  fixes f :: "'a \<Rightarrow> rat list \<times> int \<Rightarrow> error + (rat list \<times> int)"
  assumes "\<And>x pre post. x \<in> set xs \<Longrightarrow>
             f x (pre @ replicate (wd x) 0 @ post, int (length pre)) =
               Inr (pre @ out x @ post, int (length pre) + int (wd x))"
    and "\<And>x. x \<in> set xs \<Longrightarrow> length (out x) = wd x"
  shows "forM xs f (pre @ replicate (sum_list (map wd xs)) 0 @ post, int (length pre)) =
           Inr (pre @ concat (map out xs) @ post,
                int (length pre) + int (sum_list (map wd xs)))"
  using assms
proof (induction xs arbitrary: pre)
  case Nil
  show ?case by simp
next
  case (Cons x xs)
  let ?n = "sum_list (map wd xs)"
  have a: "f x (pre @ replicate (wd x) 0 @ (replicate ?n 0 @ post), int (length pre)) =
             Inr (pre @ out x @ (replicate ?n 0 @ post), int (length pre) + int (wd x))"
    by (rule Cons.prems(1)) simp
  have b: "forM xs f ((pre @ out x) @ replicate ?n 0 @ post, int (length (pre @ out x))) =
             Inr ((pre @ out x) @ concat (map out xs) @ post,
                  int (length (pre @ out x)) + int ?n)"
  proof (rule Cons.IH)
    fix y and p q :: "rat list"
    assume "y \<in> set xs"
    then show "f y (p @ replicate (wd y) 0 @ q, int (length p)) =
                 Inr (p @ out y @ q, int (length p) + int (wd y))"
      by (intro Cons.prems(1)) simp
  next
    fix y assume "y \<in> set xs"
    then show "length (out y) = wd y" by (intro Cons.prems(2)) simp
  qed
  have l: "length (out x) = wd x" by (rule Cons.prems(2)) simp
  from a b l show ?case by (simp add: replicate_add)
qed

lemma count_discards:
  assumes "\<And>x. x \<in> set xs \<Longrightarrow>
             0 \<le> card_Color x * nr + card_Rank x \<and>
             card_Color x * nr + card_Rank x < int (length dc)"
  shows "\<exists>dc'. forM xs (count_discard nr) dc = Inr dc' \<and> length dc' = length dc \<and>
           (\<forall>j<length dc. dc' ! j = dc ! j +
              int (length (filter (\<lambda>x. card_Color x * nr + card_Rank x = int j) xs)))"
  using assms
proof (induction xs arbitrary: dc)
  case Nil
  show ?case by simp
next
  case (Cons x xs)
  let ?k = "card_Color x * nr + card_Rank x"
  let ?dc = "dc[nat ?k := dc ! nat ?k + 1]"
  from Cons.prems [of x] have k: "0 \<le> ?k" "?k < int (length dc)" by simp_all
  then have s: "count_discard nr x dc = Inr ?dc"
    by (simp add: count_discard_def Let_def vget_def vset_def in_bounds_def)
  have "\<exists>dc'. forM xs (count_discard nr) ?dc = Inr dc' \<and> length dc' = length ?dc \<and>
           (\<forall>j<length ?dc. dc' ! j = ?dc ! j +
              int (length (filter (\<lambda>x. card_Color x * nr + card_Rank x = int j) xs)))"
  proof (rule Cons.IH)
    fix y assume "y \<in> set xs"
    then show "0 \<le> card_Color y * nr + card_Rank y \<and>
               card_Color y * nr + card_Rank y < int (length ?dc)"
      using Cons.prems [of y] by simp
  qed
  then obtain dc' where d: "forM xs (count_discard nr) ?dc = Inr dc'"
    "length dc' = length dc"
    "\<And>j. j < length dc \<Longrightarrow> dc' ! j = ?dc ! j +
       int (length (filter (\<lambda>x. card_Color x * nr + card_Rank x = int j) xs))"
    by auto
  have "dc' ! j = dc ! j +
          int (length (filter (\<lambda>x. card_Color x * nr + card_Rank x = int j) (x # xs)))"
    if j: "j < length dc" for j
  proof (cases "?k = int j")
    case True
    then have "nat ?k = j" by simp
    with d(3) [OF j] j True show ?thesis by simp
  next
    case False
    with k have "nat ?k \<noteq> j" by auto
    with d(3) [OF j] False show ?thesis by simp
  qed
  with s d(1,2) show ?case by simp
qed

lemma flat_index_eq:
  assumes "0 \<le> r" "r < n" "0 \<le> r'" "r' < n"
  shows "c' * n + r' = c * n + r \<longleftrightarrow> c' = (c :: int) \<and> r' = r"
proof
  assume e: "c' * n + r' = c * n + r"
  from flat_index_div_mod [OF assms(3,4), of c'] flat_index_div_mod [OF assms(1,2), of c]
  show "c' = c \<and> r' = r" unfolding e by simp
qed simp

lemma discard_counts_are_copies:
  assumes "valid_game g" and "discards_fit g obs"
  shows "\<exists>dc. forM (DiscardPile obs) (count_discard (NumRanks g))
                 (replicate (nat (NumColors g * NumRanks g)) 0) = Inr dc \<and>
              length dc = nat (NumColors g * NumRanks g) \<and>
              (\<forall>c r. 0 \<le> c \<and> c < NumColors g \<and> 0 \<le> r \<and> r < NumRanks g \<longrightarrow>
                 dc ! nat (c * NumRanks g + r) = discard_copies obs c r)"
proof -
  let ?nr = "NumRanks g" and ?N = "nat (NumColors g * NumRanks g)"
  from assms(1) have pos: "0 < NumColors g" "0 < ?nr" by (simp_all add: valid_game_def)
  then have N: "int ?N = NumColors g * ?nr" by simp
  from assms(2) have ok: "\<And>x. x \<in> set (DiscardPile obs) \<Longrightarrow>
        0 \<le> card_Color x \<and> card_Color x < NumColors g \<and> 0 \<le> card_Rank x \<and> card_Rank x < ?nr"
    by (simp add: discards_fit_def list_all_iff)
  have "\<exists>dc. forM (DiscardPile obs) (count_discard ?nr) (replicate ?N 0) = Inr dc \<and>
          length dc = length (replicate ?N (0 :: int)) \<and>
          (\<forall>j<length (replicate ?N (0 :: int)). dc ! j = replicate ?N 0 ! j +
             int (length (filter (\<lambda>x. card_Color x * ?nr + card_Rank x = int j)
               (DiscardPile obs))))"
  proof (rule count_discards)
    fix x assume "x \<in> set (DiscardPile obs)"
    from ok [OF this] flat_index_bound [of "card_Color x" "NumColors g" "card_Rank x" ?nr] N
    show "0 \<le> card_Color x * ?nr + card_Rank x \<and>
          card_Color x * ?nr + card_Rank x < int (length (replicate ?N (0 :: int)))"
      by simp
  qed
  then obtain dc where d: "forM (DiscardPile obs) (count_discard ?nr) (replicate ?N 0) = Inr dc"
    "length dc = ?N"
    "\<And>j. j < ?N \<Longrightarrow> dc ! j =
       int (length (filter (\<lambda>x. card_Color x * ?nr + card_Rank x = int j) (DiscardPile obs)))"
    by auto
  have "dc ! nat (c * ?nr + r) = discard_copies obs c r"
    if cr: "0 \<le> c" "c < NumColors g" "0 \<le> r" "r < ?nr" for c r
  proof -
    from flat_index_bound [OF cr] N have j: "nat (c * ?nr + r) < ?N"
      and i: "int (nat (c * ?nr + r)) = c * ?nr + r" by simp_all
    have "filter (\<lambda>x. card_Color x * ?nr + card_Rank x = c * ?nr + r) (DiscardPile obs) =
          filter (\<lambda>x. card_Color x = c \<and> card_Rank x = r) (DiscardPile obs)"
    proof (rule filter_cong [OF refl])
      fix x assume "x \<in> set (DiscardPile obs)"
      from ok [OF this] cr
      show "(card_Color x * ?nr + card_Rank x = c * ?nr + r) =
            (card_Color x = c \<and> card_Rank x = r)"
        by (intro flat_index_eq) simp_all
    qed
    with d(3) [OF j] show ?thesis unfolding i by (simp add: discard_copies_def)
  qed
  with d(1,2) show ?thesis by blast
qed

lemma encode_discard_field_block:
  assumes "in_bounds dc (c * NumRanks g + r)"
    and "dc ! nat (c * NumRanks g + r) = k" and "0 \<le> k" and "k \<le> NumberCardInstances g c r"
  shows "encode_discard_field g dc c r
           (pre @ replicate (nat (NumberCardInstances g c r)) 0 @ post, int (length pre)) =
         Inr (pre @ discard_field (NumberCardInstances g c r) k @ post,
              int (length pre) + int (nat (NumberCardInstances g c r)))"
proof -
  let ?w = "NumberCardInstances g c r"
  from assms(3,4) have kw: "nat k \<le> nat ?w" and w: "int (nat ?w) = ?w"
    and k: "int (nat k) = k" and d: "nat ?w - nat k = nat (?w - k)"
    by simp_all
  have "thermometer k (int (length pre)) (pre @ replicate (nat ?w) 0 @ post) =
          Inr (pre @ discard_field ?w k @ post)"
    using thermometer_block [OF kw, of pre post] unfolding k d discard_field_def by simp
  then show ?thesis
    using assms(1,2) unfolding encode_discard_field_def w by (simp add: vget_def)
qed

lemma sum_list_nat:
  assumes "\<And>x. x \<in> set xs \<Longrightarrow> 0 \<le> f x"
  shows "int (sum_list (map (\<lambda>x. nat (f x)) xs)) = sum_list (map f xs)"
  using assms by (induction xs) simp_all

lemma length_discard_field: "0 \<le> k \<Longrightarrow> k \<le> w \<Longrightarrow> length (discard_field w k) = nat w"
  by (simp add: discard_field_def)

lemma int_sum_list: "int (sum_list (map f xs)) = sum_list (map (\<lambda>x. int (f x)) xs)"
  by (induction xs) simp_all

lemma discard_rows_blocks:
  assumes valid: "valid_game g" and fit: "discards_fit g obs"
    and len: "length dc = nat (NumColors g * NumRanks g)"
    and dc: "\<And>c r. 0 \<le> c \<Longrightarrow> c < NumColors g \<Longrightarrow> 0 \<le> r \<Longrightarrow> r < NumRanks g \<Longrightarrow>
               dc ! nat (c * NumRanks g + r) = discard_copies obs c r"
  shows "forM (ints_below (NumColors g))
           (\<lambda>c. forM (ints_below (NumRanks g)) (encode_discard_field g dc c))
           (pre @ zeros (DiscardSectionLength g) @ post, int (length pre)) =
         Inr (pre @ discards_section g obs @ post, int (length pre) + DiscardSectionLength g)"
proof -
  let ?nc = "NumColors g" and ?nr = "NumRanks g"
  let ?w = "\<lambda>c r. nat (NumberCardInstances g c r)"
  let ?fld = "\<lambda>c r. discard_field (NumberCardInstances g c r) (discard_copies obs c r)"
  let ?row = "\<lambda>c. sum_list (map (?w c) (ints_below ?nr))"
  let ?out = "\<lambda>c. concat (map (?fld c) (ints_below ?nr))"
  from valid have pos: "0 < ?nc" "0 < ?nr"
    and deck: "MaxDeckSize g = deck_total g"
    and inst: "\<And>c r. c \<in> set (ints_below ?nc) \<Longrightarrow> r \<in> set (ints_below ?nr) \<Longrightarrow>
                 0 \<le> NumberCardInstances g c r"
    by (simp_all add: valid_game_def list_all_iff)
  from fit have most: "\<And>c r. c \<in> set (ints_below ?nc) \<Longrightarrow> r \<in> set (ints_below ?nr) \<Longrightarrow>
                 discard_copies obs c r \<le> NumberCardInstances g c r"
    by (simp add: discards_fit_def list_all_iff)
  have some: "0 \<le> discard_copies obs c r" for c r by (simp add: discard_copies_def)
  from pos have N: "int (nat (?nc * ?nr)) = ?nc * ?nr" by simp
  have fld: "encode_discard_field g dc c r (p @ replicate (?w c r) 0 @ q, int (length p)) =
               Inr (p @ ?fld c r @ q, int (length p) + int (?w c r))"
    if c: "c \<in> set (ints_below ?nc)" and r: "r \<in> set (ints_below ?nr)" for c r p q
  proof (rule encode_discard_field_block)
    from c r have cr: "0 \<le> c" "c < ?nc" "0 \<le> r" "r < ?nr" by (simp_all add: set_ints_below)
    from flat_index_bound [OF cr] len N show "in_bounds dc (c * ?nr + r)"
      by (simp add: in_bounds_def)
    from cr show "dc ! nat (c * ?nr + r) = discard_copies obs c r" by (rule dc)
    show "0 \<le> discard_copies obs c r" by (rule some)
    from c r show "discard_copies obs c r \<le> NumberCardInstances g c r" by (rule most)
  qed
  have lfld: "length (?fld c r) = ?w c r"
    if "c \<in> set (ints_below ?nc)" "r \<in> set (ints_below ?nr)" for c r
    using most [OF that] some by (intro length_discard_field)
  have row: "forM (ints_below ?nr) (encode_discard_field g dc c)
               (p @ replicate (?row c) 0 @ q, int (length p)) =
             Inr (p @ ?out c @ q, int (length p) + int (?row c))"
    if c: "c \<in> set (ints_below ?nc)" for c p q
    by (rule forM_blocks [where wd = "?w c" and out = "?fld c"]) (simp_all add: fld lfld c)
  have lrow: "length (?out c) = ?row c" if c: "c \<in> set (ints_below ?nc)" for c
  proof -
    have "sum_list (map (\<lambda>r. length (?fld c r)) (ints_below ?nr)) = ?row c"
      by (rule arg_cong [where f = sum_list], rule map_cong [OF refl]) (simp add: lfld c)
    then show ?thesis by (simp add: length_concat comp_def)
  qed
  have inner: "int (?row c) = sum_list (map (\<lambda>r. NumberCardInstances g c r) (ints_below ?nr))"
    if c: "c \<in> set (ints_below ?nc)" for c
    by (rule sum_list_nat) (rule inst [OF c])
  have "int (sum_list (map ?row (ints_below ?nc))) =
          sum_list (map (\<lambda>c. int (?row c)) (ints_below ?nc))"
    by (rule int_sum_list)
  also have "\<dots> = sum_list (map (\<lambda>c. sum_list (map (\<lambda>r. NumberCardInstances g c r)
                       (ints_below ?nr))) (ints_below ?nc))"
    by (rule arg_cong [where f = sum_list], rule map_cong [OF refl]) (rule inner)
  finally have "int (sum_list (map ?row (ints_below ?nc))) = deck_total g"
    by (simp add: deck_total_def)
  then have total: "int (sum_list (map ?row (ints_below ?nc))) = DiscardSectionLength g"
    using deck by (simp add: DiscardSectionLength_def)
  then have z: "zeros (DiscardSectionLength g) = replicate (sum_list (map ?row (ints_below ?nc))) 0"
    unfolding zeros_def by (metis nat_int)
  have "forM (ints_below ?nc) (\<lambda>c. forM (ints_below ?nr) (encode_discard_field g dc c))
          (pre @ replicate (sum_list (map ?row (ints_below ?nc))) 0 @ post, int (length pre)) =
        Inr (pre @ concat (map ?out (ints_below ?nc)) @ post,
             int (length pre) + int (sum_list (map ?row (ints_below ?nc))))"
    by (rule forM_blocks [where wd = ?row and out = ?out]) (simp_all add: row lrow)
  then show ?thesis by (simp add: z total discards_section_def)
qed

lemma length_discards_section:
  assumes "valid_game g" and "discards_fit g obs"
  shows "int (length (discards_section g obs)) = DiscardSectionLength g"
proof -
  from discard_counts_are_copies [OF assms] obtain dc where
    d: "length dc = nat (NumColors g * NumRanks g)"
    "\<And>c r. 0 \<le> c \<Longrightarrow> c < NumColors g \<Longrightarrow> 0 \<le> r \<Longrightarrow> r < NumRanks g \<Longrightarrow>
       dc ! nat (c * NumRanks g + r) = discard_copies obs c r"
    by blast
  have r: "forM (ints_below (NumColors g))
              (\<lambda>c. forM (ints_below (NumRanks g)) (encode_discard_field g dc c))
              (zeros (DiscardSectionLength g), 0) =
            Inr (discards_section g obs, DiscardSectionLength g)"
    using discard_rows_blocks [OF assms d, of "[]" "[]"] by simp
  from discard_rows [OF r]
  have "only_ones (zeros (DiscardSectionLength g)) (discards_section g obs)"
    by (rule conjunct1)
  then have "length (discards_section g obs) = nat (DiscardSectionLength g)"
    by (simp add: only_ones_def zeros_def)
  moreover from section_lengths_nonneg [OF assms(1)] have "0 \<le> DiscardSectionLength g" by simp
  ultimately show ?thesis by simp
qed

text \<open>
  C8, as stated for every observation, fails: \<^verbatim>\<open>EncodeDiscards\<close> never compares the
  number of discarded copies with the width of the field. In the small game the card
  (0, 1) has one instance; with two copies of it in the discard pile the second one is
  written into the first entry of the next field, that of the card (1, 0) at offset 3, of
  which no copy was discarded.
\<close>

theorem discards_overflow_counterexample:
  "EncodeDiscards small_game over_discarded_obs 0 (zeros (DiscardSectionLength small_game)) =
     Inr ([0, 0, 1, 1, 0, 0], 6) \<and>
   NumberCardInstances small_game 0 0 + NumberCardInstances small_game 0 1 = 3 \<and>
   NumberCardInstances small_game 1 0 = 2 \<and>
   discard_copies over_discarded_obs 1 0 = 0 \<and>
   discard_field 2 0 = [0, 0] \<and>
   take 2 (drop 3 [0, 0, 1, 1, 0, 0 :: rat]) = [1, 0]"
proof -
  have "EncodeDiscards small_game over_discarded_obs 0 (zeros (DiscardSectionLength small_game)) =
          Inr ([0, 0, 1, 1, 0, 0], 6)"
    by code_simp
  moreover have "discard_copies over_discarded_obs 1 0 = 0"
    by (simp add: discard_copies_def over_discarded_obs_def)
  moreover have "discard_field 2 0 = [0, 0]"
    by (simp add: discard_field_def numeral_2_eq_2)
  ultimately show ?thesis by (simp add: small_game_def)
qed

text \<open>
  C8, amended. For a valid game and an observation whose discarded cards are cards of the
  game, no more of any card value than the deck has instances of it, \<^verbatim>\<open>EncodeDiscards\<close>
  run on a buffer whose section is still zero returns, leaves the buffer before and after
  the section as it is, and fills the section with \<open>discards_section\<close>: colour by colour
  and rank by rank, a field as wide as the card value has instances, whose first entries,
  as many as copies of the card value are in the discard pile, are 1 and whose other
  entries are 0. With the single card (0, 0) in the discard pile the field of (0, 0) is a
  1 followed by zeros, and every other field is zero.
\<close>

theorem discards_section_is_thermometers:
  assumes "valid_game g" and "discards_fit g obs"
  shows "EncodeDiscards g obs (int (length pre)) (pre @ zeros (DiscardSectionLength g) @ post) =
           Inr (pre @ discards_section g obs @ post, DiscardSectionLength g) \<and>
         int (length (discards_section g obs)) = DiscardSectionLength g \<and>
         (DiscardPile obs = [\<lparr>card_Color = 0, card_Rank = 0, card_IsValid = True\<rparr>] \<longrightarrow>
            (\<forall>c r. discard_field (NumberCardInstances g c r) (discard_copies obs c r) =
               (if c = 0 \<and> r = 0 then 1 # replicate (nat (NumberCardInstances g 0 0 - 1)) 0
                else replicate (nat (NumberCardInstances g c r)) 0)))"
proof (intro conjI impI allI)
  from discard_counts_are_copies [OF assms] obtain dc where
    d: "forM (DiscardPile obs) (count_discard (NumRanks g))
          (replicate (nat (NumColors g * NumRanks g)) 0) = Inr dc"
    and l: "length dc = nat (NumColors g * NumRanks g)"
    and c: "\<And>c r. 0 \<le> c \<Longrightarrow> c < NumColors g \<Longrightarrow> 0 \<le> r \<Longrightarrow> r < NumRanks g \<Longrightarrow>
              dc ! nat (c * NumRanks g + r) = discard_copies obs c r"
    by blast
  from discard_rows_blocks [OF assms l c, of pre post] d
  show "EncodeDiscards g obs (int (length pre)) (pre @ zeros (DiscardSectionLength g) @ post) =
          Inr (pre @ discards_section g obs @ post, DiscardSectionLength g)"
    by (simp add: EncodeDiscards_def check_def)
next
  show "int (length (discards_section g obs)) = DiscardSectionLength g"
    using assms by (rule length_discards_section)
next
  fix c r
  assume "DiscardPile obs = [\<lparr>card_Color = 0, card_Rank = 0, card_IsValid = True\<rparr>]"
  then have "discard_copies obs c r = (if c = 0 \<and> r = 0 then 1 else 0)"
    by (auto simp: discard_copies_def)
  then show "discard_field (NumberCardInstances g c r) (discard_copies obs c r) =
               (if c = 0 \<and> r = 0 then 1 # replicate (nat (NumberCardInstances g 0 0 - 1)) 0
                else replicate (nat (NumberCardInstances g c r)) 0)"
    by (simp add: discard_field_def)
qed

lemma discards_fit_small_obs: "discards_fit small_game small_obs"
  by code_simp

lemma discards_section_small_obs: "discards_section small_game small_obs = [1, 0, 0, 0, 0, 0]"
  by code_simp

theorem discards_section_is_thermometers_witness:
  "valid_game small_game \<and> discards_fit small_game small_obs \<and>
   DiscardPile small_obs = [\<lparr>card_Color = 0, card_Rank = 0, card_IsValid = True\<rparr>] \<and>
   EncodeDiscards small_game small_obs 2 ([0, 1] @ zeros 6 @ [1]) =
     Inr ([0, 1] @ [1, 0, 0, 0, 0, 0] @ [1], 6) \<and>
   discard_field (NumberCardInstances small_game 0 0) (discard_copies small_obs 0 0) = [1, 0] \<and>
   discard_field (NumberCardInstances small_game 1 0) (discard_copies small_obs 1 0) = [0, 0]"
proof -
  have p: "DiscardPile small_obs = [\<lparr>card_Color = 0, card_Rank = 0, card_IsValid = True\<rparr>]"
    by (simp add: small_obs_def)
  have n: "DiscardSectionLength small_game = 6" "NumberCardInstances small_game c 0 = 2" for c
    by (simp_all add: DiscardSectionLength_def small_game_def)
  note t = discards_section_is_thermometers
    [OF valid_small_game discards_fit_small_obs, of "[0, 1]" "[1]"]
  from t have e: "EncodeDiscards small_game small_obs 2 ([0, 1] @ zeros 6 @ [1]) =
                    Inr ([0, 1] @ [1, 0, 0, 0, 0, 0] @ [1], 6)"
    unfolding discards_section_small_obs n by simp
  from t p have f: "discard_field (NumberCardInstances small_game c r)
                      (discard_copies small_obs c r) =
                    (if c = 0 \<and> r = 0
                     then 1 # replicate (nat (NumberCardInstances small_game 0 0 - 1)) 0
                     else replicate (nat (NumberCardInstances small_game c r)) 0)" for c r
    by blast
  from f [of 0 0] f [of 1 0] e p valid_small_game discards_fit_small_obs
  show ?thesis by (simp add: n numeral_2_eq_2)
qed

subsection \<open>The values of the card-knowledge section\<close>














end
